theory Spec2Isabelle
  imports Main "HOL-Library.AList"
begin

section \<open>The deferred module loader \<open>AsyncEsmComponent\<close>\<close>

subsection \<open>Modules, promises and the loader's closure variables\<close>

text \<open>
  The module type of the source is
  \<^verbatim>\<open>M = ComponentType<P> | { default: ComponentType<P> }\<close>:
  a resolved value is a renderable unit itself, or a record that carries the unit in
  its \<open>default\<close> field. Units are functions or classes, hence truthy.
\<close>

datatype 'c module = Bare 'c | With_default 'c

text \<open>
  \<^verbatim>\<open>(result as { default?: ComponentType<P> }).default || result\<close>:
  the \<open>default\<close> field of a record is a unit (truthy) and wins; a bare unit has no
  such field, the left operand is \<open>undefined\<close> and the value itself is taken.
\<close>

fun unwrap_default :: "'c module \<Rightarrow> 'c" where
  "unwrap_default (With_default x) = x"
| "unwrap_default (Bare x) = x"

text \<open>
  A promise is pending, fulfilled with a module, or rejected. While it is pending it
  holds the callbacks given to \<open>then\<close>; the source registers fulfilment callbacks only
  (every \<open>then\<close> has one argument), so a rejection runs none of them.
\<close>

datatype 'c status = Pending | Fulfilled "'c module" | Rejected

text \<open>
  The two callbacks of the source: the one of \<open>waitForPromise\<close>, which stores the
  resolved unit in \<open>component\<close>, and the one of the effect of instance \<open>i\<close>, which calls
  \<open>setLoaded(true)\<close> when the \<open>isMounted\<close> variable \<open>c\<close> of that effect is still true.
\<close>

datatype reaction = Store_component | Set_loaded nat nat

record 'c promise_rec =
  status :: "'c status"
  reactions :: "reaction list"

text \<open>
  One rendered instance of \<open>AsyncComponent\<close>: whether the host still has it mounted, its
  \<open>loaded\<close> state, the value of \<open>loaded\<close> its latest render has read (the effect is a
  closure of that render), whether the effect of the latest render has yet to run, and
  the \<open>isMounted\<close> variable which the cleanup of the latest effect will clear.
\<close>

record inst =
  mounted :: bool
  loaded :: bool
  seen_loaded :: bool
  effect_pending :: bool
  cleanup :: "nat option"

text \<open>What a render returns: the element \<open><Component ref={...} {...props} />\<close>.\<close>

datatype ('c, 'p, 'r) element = Element 'c "'r option" 'p

text \<open>
  The state of one loader: the closure variables \<open>promise\<close> and \<open>component\<close>, the
  promises that exist, the queue of promise jobs, the \<open>isMounted\<close> variables of the
  effects that have run, and the rendered instances. The remaining fields only
  observe: how often the factory was invoked, what each call of \<open>waitForPromise\<close>
  returned, every render (instance, props, forwarded ref, and the element returned), and
  which instances received \<open>setLoaded\<close> while unmounted.
\<close>

record ('c, 'p, 'r) loader_state =
  promise :: "nat option"
  component :: "'c option"
  promises :: "'c promise_rec list"
  microtasks :: "(reaction \<times> 'c module) list"
  cells :: "bool list"
  instances :: "inst list"
  factory_calls :: nat
  returned :: "nat list"
  rendered :: "(nat \<times> 'p \<times> 'r option \<times> ('c, 'p, 'r) element option) list"
  stale_updates :: "nat list"

text \<open>
  \<open>loadComponent\<close> is a promise (promise \<open>0\<close>, which exists when the loader is
  constructed) or a factory, whose every invocation returns a promise of its own.
\<close>

datatype load_request = Given_promise | Factory

definition new_promise :: "'c promise_rec" where
  "new_promise = \<lparr>status = Pending, reactions = []\<rparr>"

definition init :: "load_request \<Rightarrow> ('c, 'p, 'r) loader_state" where
  "init loadComponent =
     \<lparr>promise = None, component = None,
      promises = (case loadComponent of Given_promise \<Rightarrow> [new_promise] | Factory \<Rightarrow> []),
      microtasks = [], cells = [], instances = [],
      factory_calls = 0, returned = [], rendered = [], stale_updates = []\<rparr>"

text \<open>\<open>loadComponent()\<close>: one more invocation, one more promise.\<close>

definition call_factory ::
  "('c, 'p, 'r) loader_state \<Rightarrow> nat \<times> ('c, 'p, 'r) loader_state" where
  "call_factory s =
     (length (promises s),
      s\<lparr>promises := promises s @ [new_promise], factory_calls := Suc (factory_calls s)\<rparr>)"

text \<open>
  \<open>p.then(cb)\<close>: a pending promise keeps the callback, a fulfilled one queues it as a
  job with the promise's value, a rejected one never runs it.
\<close>

definition then_cb ::
  "nat \<Rightarrow> reaction \<Rightarrow> ('c, 'p, 'r) loader_state \<Rightarrow> ('c, 'p, 'r) loader_state" where
  "then_cb p cb s =
     (if p < length (promises s) then
        (case status (promises s ! p) of
           Pending \<Rightarrow>
             s\<lparr>promises := (promises s)[p := (promises s ! p)
                  \<lparr>reactions := reactions (promises s ! p) @ [cb]\<rparr>]\<rparr>
         | Fulfilled v \<Rightarrow> s\<lparr>microtasks := microtasks s @ [(cb, v)]\<rparr>
         | Rejected \<Rightarrow> s)
      else s)"

text \<open>
  \<^verbatim>\<open>
  function waitForPromise() {
    if (!promise) {
      promise = loadComponent instanceof Promise ? loadComponent : loadComponent();
    }
    if (!component) {
      promise.then(result => { component = result.default || result; });
    }
    return promise;
  }\<close>
  \<open>ensure_promise\<close> is the first \<open>if\<close>; \<open>waitForPromise\<close> is the whole function.
\<close>

definition ensure_promise ::
  "load_request \<Rightarrow> ('c, 'p, 'r) loader_state \<Rightarrow> nat \<times> ('c, 'p, 'r) loader_state" where
  "ensure_promise loadComponent s =
     (case promise s of
        Some p \<Rightarrow> (p, s)
      | None \<Rightarrow>
          (case loadComponent of
             Given_promise \<Rightarrow> (0, s\<lparr>promise := Some 0\<rparr>)
           | Factory \<Rightarrow> (let (p, s') = call_factory s in (p, s'\<lparr>promise := Some p\<rparr>))))"

definition waitForPromise ::
  "load_request \<Rightarrow> ('c, 'p, 'r) loader_state \<Rightarrow> nat \<times> ('c, 'p, 'r) loader_state" where
  "waitForPromise loadComponent s =
     (let (p, s1) = ensure_promise loadComponent s;
          s2 = (case component s1 of None \<Rightarrow> then_cb p Store_component s1 | Some _ \<Rightarrow> s1)
      in (p, s2\<lparr>returned := returned s2 @ [p]\<rparr>))"

text \<open>
  \<^verbatim>\<open>
  const Component = component || placeholder;
  return Component ? (
    <Component ref={Component === component ? ref : null} {...props} />
  ) : null;\<close>
  The placeholder is a unit or \<open>null\<close>; the forwarded ref is \<open>null\<close> when the caller
  gave none.
\<close>

definition AsyncComponent_render ::
  "'c option \<Rightarrow> 'c option \<Rightarrow> 'p \<Rightarrow> 'r option \<Rightarrow> ('c, 'p, 'r) element option" where
  "AsyncComponent_render resolved placeholder props ref =
     (let Component = (case resolved of Some c \<Rightarrow> Some c | None \<Rightarrow> placeholder)
      in case Component of
           None \<Rightarrow> None
         | Some C \<Rightarrow> Some (Element C (if Some C = resolved then ref else None) props))"

text \<open>\<open>setLoaded(true)\<close> of instance \<open>i\<close>; the host drops an update of an unmounted instance.\<close>

definition setLoaded ::
  "nat \<Rightarrow> ('c, 'p, 'r) loader_state \<Rightarrow> ('c, 'p, 'r) loader_state" where
  "setLoaded i s =
     (if i < length (instances s) then
        (if mounted (instances s ! i)
         then s\<lparr>instances := (instances s)[i := (instances s ! i)\<lparr>loaded := True\<rparr>]\<rparr>
         else s\<lparr>stale_updates := stale_updates s @ [i]\<rparr>)
      else s)"

text \<open>
  Running a callback with the promise's value:
  \<^verbatim>\<open>result => { component = result.default || result; }\<close> and
  \<^verbatim>\<open>() => { if (isMounted) { setLoaded(true); } }\<close>.
\<close>

fun run_reaction ::
  "reaction \<Rightarrow> 'c module \<Rightarrow> ('c, 'p, 'r) loader_state \<Rightarrow> ('c, 'p, 'r) loader_state" where
  "run_reaction Store_component result s = s\<lparr>component := Some (unwrap_default result)\<rparr>"
| "run_reaction (Set_loaded i c) result s =
     (if c < length (cells s) \<and> cells s ! c then setLoaded i s else s)"

text \<open>
  The environment settles a pending promise once: fulfilment queues the registered
  callbacks in order, rejection discards them.
\<close>

datatype 'c outcome = Resolve "'c module" | Reject

definition settle ::
  "nat \<Rightarrow> 'c outcome \<Rightarrow> ('c, 'p, 'r) loader_state \<Rightarrow> ('c, 'p, 'r) loader_state" where
  "settle p out s =
     (if p < length (promises s) then
        (case status (promises s ! p) of
           Pending \<Rightarrow>
             (case out of
                Resolve v \<Rightarrow>
                  s\<lparr>promises := (promises s)[p := \<lparr>status = Fulfilled v, reactions = []\<rparr>],
                    microtasks := microtasks s @ map (\<lambda>cb. (cb, v)) (reactions (promises s ! p))\<rparr>
              | Reject \<Rightarrow>
                  s\<lparr>promises := (promises s)[p := \<lparr>status = Rejected, reactions = []\<rparr>]\<rparr>)
         | _ \<Rightarrow> s)
      else s)"

text \<open>The cleanup of an effect: \<^verbatim>\<open>() => { isMounted = false; }\<close>.\<close>

definition run_cleanup ::
  "nat option \<Rightarrow> ('c, 'p, 'r) loader_state \<Rightarrow> ('c, 'p, 'r) loader_state" where
  "run_cleanup c s = (case c of None \<Rightarrow> s | Some k \<Rightarrow> s\<lparr>cells := (cells s)[k := False]\<rparr>)"

text \<open>
  The effect of instance \<open>i\<close>, after the cleanup of its previous effect:
  \<^verbatim>\<open>
  useEffect(() => {
    let isMounted = true;
    if (!loaded) {
      waitForPromise().then(() => { if (isMounted) { setLoaded(true); } });
    }
    return () => { isMounted = false; };
  });\<close>
\<close>

definition run_effect ::
  "load_request \<Rightarrow> nat \<Rightarrow> ('c, 'p, 'r) loader_state \<Rightarrow> ('c, 'p, 'r) loader_state" where
  "run_effect loadComponent i s =
     (let s1 = run_cleanup (cleanup (instances s ! i)) s;
          c = length (cells s1);
          s2 = s1\<lparr>cells := cells s1 @ [True]\<rparr>;
          s3 = (if \<not> seen_loaded (instances s2 ! i)
                then (let (p, s') = waitForPromise loadComponent s2
                      in then_cb p (Set_loaded i c) s')
                else s2)
      in s3\<lparr>instances := (instances s3)[i := (instances s3 ! i)
              \<lparr>effect_pending := False, cleanup := Some c\<rparr>]\<rparr>)"

subsection \<open>What can happen to a loader\<close>

text \<open>
  JavaScript runs one thing at a time, so every execution of a loader is a sequence of
  events: a call of \<open>preload\<close>; the environment settling a promise; the next promise
  job; the host rendering instance \<open>i\<close> with some props and forwarded ref (mounting it
  when \<open>i\<close> is the next unused index, with \<open>useState(component !== undefined)\<close>);
  the host running the effect of the latest render of instance \<open>i\<close>; the host
  unmounting instance \<open>i\<close>. The host runs the pending effect of an instance before it
  renders or unmounts that instance again, and never renders an unmounted instance.
\<close>

datatype ('c, 'p, 'r) event =
    Preload
  | Settle nat "'c outcome"
  | Microtask
  | Render nat 'p "'r option"
  | Effect nat
  | Unmount nat

fun step ::
  "load_request \<Rightarrow> 'c option \<Rightarrow> ('c, 'p, 'r) loader_state \<Rightarrow> ('c, 'p, 'r) event
     \<Rightarrow> ('c, 'p, 'r) loader_state" where
  "step lc ph s Preload = snd (waitForPromise lc s)"
| "step lc ph s (Settle p out) = settle p out s"
| "step lc ph s Microtask =
     (case microtasks s of
        [] \<Rightarrow> s
      | (cb, v) # js \<Rightarrow> run_reaction cb v (s\<lparr>microtasks := js\<rparr>))"
| "step lc ph s (Render i props ref) =
     (if i = length (instances s) then
        s\<lparr>instances := instances s @
             [\<lparr>mounted = True, loaded = (component s \<noteq> None),
               seen_loaded = (component s \<noteq> None), effect_pending = True, cleanup = None\<rparr>],
          rendered := rendered s @
            [(i, props, ref, AsyncComponent_render (component s) ph props ref)]\<rparr>
      else if i < length (instances s) \<and> mounted (instances s ! i)
              \<and> \<not> effect_pending (instances s ! i) then
        s\<lparr>instances := (instances s)[i := (instances s ! i)
             \<lparr>seen_loaded := loaded (instances s ! i), effect_pending := True\<rparr>],
          rendered := rendered s @
            [(i, props, ref, AsyncComponent_render (component s) ph props ref)]\<rparr>
      else s)"
| "step lc ph s (Effect i) =
     (if i < length (instances s) \<and> mounted (instances s ! i)
         \<and> effect_pending (instances s ! i)
      then run_effect lc i s else s)"
| "step lc ph s (Unmount i) =
     (if i < length (instances s) \<and> mounted (instances s ! i)
         \<and> \<not> effect_pending (instances s ! i)
      then (let s1 = run_cleanup (cleanup (instances s ! i)) s
            in s1\<lparr>instances := (instances s1)[i := (instances s1 ! i)\<lparr>mounted := False\<rparr>]\<rparr>)
      else s)"

definition run ::
  "load_request \<Rightarrow> 'c option \<Rightarrow> ('c, 'p, 'r) event list \<Rightarrow> ('c, 'p, 'r) loader_state" where
  "run lc ph es = foldl (step lc ph) (init lc) es"

subsection \<open>The default placeholder\<close>

text \<open>
  Modelled from the spec: \<open>PlaceholderProps\<close> (declared in \<open>./types\<close>, which is not among the
  sources): \<open>{ width, height, showLoadingForImport, style }\<close>, every field optional, with
  width and height numbers as in the spec's examples and the style an object of CSS
  properties, kept as a list of its entries in order.
\<close>

datatype css_value = Num int | Str string

record placeholder_props =
  width :: "int option"
  height :: "int option"
  showLoadingForImport :: "bool option"
  placeholderStyle :: "(string \<times> css_value) list option"

text \<open>
  What the placeholder returns: the \<open>div\<close> with its key, its style object (an entry may
  hold \<open>undefined\<close>) and its children, or the \<open>Loading\<close> indicator with its position.
\<close>

datatype node =
    Div string "(string \<times> css_value option) list" "node list"
  | Loading string

text \<open>
  Object spread \<open>{ ...base, ...extra }\<close>: an entry of \<open>extra\<close> replaces the value of a key
  that \<open>base\<close> has, in place, and is appended otherwise.
\<close>

definition spread :: "(string \<times> 'v) list \<Rightarrow> (string \<times> 'v) list \<Rightarrow> (string \<times> 'v) list" where
  "spread base extra = fold (\<lambda>(k, v). AList.update k v) extra base"

text \<open>
  \<^verbatim>\<open>
  function DefaultPlaceholder({ width, height, showLoadingForImport = false,
                                placeholderStyle: style }) {
    return (
      (height && (
        <div key="async-asm-placeholder" style={{ width, height, ...style }}>
          {showLoadingForImport && <Loading position="floating" />}
        </div>
      )) || null
    );
  }\<close>
  A height that is missing or \<open>0\<close> is falsy and the result is \<open>null\<close>; a child \<open>false\<close>
  renders nothing.
\<close>

definition DefaultPlaceholder :: "placeholder_props \<Rightarrow> node option" where
  "DefaultPlaceholder props =
     (let showLoading = (case showLoadingForImport props of None \<Rightarrow> False | Some b \<Rightarrow> b);
          style = (case placeholderStyle props of
                     None \<Rightarrow> []
                   | Some st \<Rightarrow> map (\<lambda>(k, v). (k, Some v)) st)
      in case height props of
           None \<Rightarrow> None
         | Some h \<Rightarrow>
             if h = 0 then None
             else Some (Div ''async-asm-placeholder''
                    (spread [(''width'', map_option Num (width props)),
                             (''height'', Some (Num h))] style)
                    (if showLoading then [Loading ''floating''] else [])))"

section \<open>The dashboard actions that persist configuration\<close>

subsection \<open>JSON, requests and actions\<close>

datatype json =
    JNull
  | JBool bool
  | JNum int
  | JStr string
  | JArr "json list"
  | JObj "(string \<times> json) list"

text \<open>A value is falsy when it is \<open>null\<close>, \<open>false\<close>, \<open>0\<close> or the empty string.\<close>

fun truthy :: "json \<Rightarrow> bool" where
  "truthy JNull = False"
| "truthy (JBool b) = b"
| "truthy (JNum n) = (n \<noteq> 0)"
| "truthy (JStr s) = (s \<noteq> [])"
| "truthy (JArr xs) = True"
| "truthy (JObj kvs) = True"

text \<open>
  A string a response carries in \<open>json_metadata\<close>: empty, not JSON, or the text of a
  value. What is thrown: the error object a request rejects with, or the
  \<open>SyntaxError\<close> of \<open>JSON.parse\<close>, or the \<open>TypeError\<close> of reading a property of \<open>null\<close>.
\<close>

datatype json_text = Empty_text | Malformed | Encodes json

datatype 'e thrown = Http_error 'e | SyntaxError | TypeError

text \<open>\<open>JSON.parse(x)\<close>, where \<open>x\<close> may be \<open>undefined\<close>.\<close>

fun JSON_parse :: "json_text option \<Rightarrow> 'e thrown + json" where
  "JSON_parse (Some (Encodes j)) = Inr j"
| "JSON_parse _ = Inl SyntaxError"

text \<open>\<open>value.key\<close> on a parsed value: \<open>undefined\<close> unless the value is an object with the key.\<close>

fun get_prop :: "json \<Rightarrow> string \<Rightarrow> 'e thrown + json option" where
  "get_prop JNull k = Inl TypeError"
| "get_prop (JObj kvs) k = Inr (map_of kvs k)"
| "get_prop _ k = Inr None"

text \<open>\<open>a ?? b\<close>: \<open>b\<close> when \<open>a\<close> is \<open>undefined\<close> or \<open>null\<close>.\<close>

fun nullish_coalesce :: "json option \<Rightarrow> json option \<Rightarrow> json option" where
  "nullish_coalesce None b = b"
| "nullish_coalesce (Some JNull) b = b"
| "nullish_coalesce (Some a) b = Some a"

text \<open>
  \<open>JSON.stringify\<close> of an object literal leaves out the keys that hold \<open>undefined\<close>; the
  text is kept as the value it encodes.
\<close>

definition JSON_stringify :: "(string \<times> json option) list \<Rightarrow> json" where
  "JSON_stringify obj = JObj (List.map_filter (\<lambda>(k, v). map_option (Pair k) v) obj)"

text \<open>A theme \<open>{ id, name }\<close>; the name is a string, or the template \<open>`Theme ${themeId}`\<close>.\<close>

datatype theme_name = Name string | Theme_number int

record theme =
  theme_id :: int
  theme_name :: theme_name

record response =
  json_metadata :: "json_text option"
  result_theme :: "theme option"
  last_modified_time :: "int option"

datatype 'e http_outcome = Rejects 'e | Resolves response

datatype payload = Json_metadata json | Theme_id "int option"

datatype orientation = VERTICAL | HORIZONTAL

datatype action =
    DASHBOARD_INFO_UPDATED json
  | SAVE_CHART_CONFIG_BEGIN "json option" "json option"
  | SAVE_CHART_CONFIG_COMPLETE "json option" "json option"
  | SAVE_CHART_CONFIG_FAIL "json option" "json option"
  | SET_FILTER_BAR_ORIENTATION json
  | SET_CROSS_FILTERS_ENABLED "json option"
  | SET_DASHBOARD_THEME "theme option"
  | ADD_DANGER_TOAST string
  | ON_SAVE int

text \<open>What a thunk does, in order: it dispatches an action or sends \<open>PUT /api/v1/dashboard/id\<close>.\<close>

datatype effect = Dispatch action | Put int payload

text \<open>
  What a thunk is given: \<open>getState().dashboardInfo\<close>, the answer of the server to each
  request (\<open>makeApi\<close>), the translation \<open>t\<close> and \<open>getErrorText\<close>; the last three are not
  part of the sources and stay parameters.
\<close>

record 'e env =
  dashboard_id :: int
  metadata :: "(string \<times> json) list"
  updateDashboard :: "int \<Rightarrow> payload \<Rightarrow> 'e http_outcome"
  translate :: "string \<Rightarrow> string"
  getErrorText :: "'e thrown \<Rightarrow> string \<Rightarrow> string"

subsection \<open>The thunks\<close>

text \<open>
  A thunk returns what it did and how its promise settles: \<open>Inr ()\<close> when it resolves,
  \<open>Inl err\<close> when it rejects with \<open>err\<close>. A \<open>try\<close> block is the function named \<open>_try\<close>: what
  it did until it finished or threw, and what it threw.
\<close>

text \<open>
  \<^verbatim>\<open>
  const response = await updateDashboard({
    json_metadata: JSON.stringify({
      ...metadata,
      chart_configuration: chartConfiguration ?? metadata.chart_configuration,
      global_chart_configuration:
        globalChartConfiguration ?? metadata.global_chart_configuration,
    }),
  });
  dispatch(dashboardInfoChanged({
    metadata: JSON.parse(response.result.json_metadata) }));
  dispatch({ type: SAVE_CHART_CONFIG_COMPLETE, chartConfiguration,
             globalChartConfiguration });\<close>
\<close>

definition chart_config_payload :: "json option \<Rightarrow> json option \<Rightarrow> 'e env \<Rightarrow> payload" where
  "chart_config_payload chartConfiguration globalChartConfiguration env =
     Json_metadata (JSON_stringify
       (spread (map (\<lambda>(k, v). (k, Some v)) (metadata env))
          [(''chart_configuration'',
              nullish_coalesce chartConfiguration
                (map_of (metadata env) ''chart_configuration'')),
           (''global_chart_configuration'',
              nullish_coalesce globalChartConfiguration
                (map_of (metadata env) ''global_chart_configuration''))]))"

definition saveChartConfiguration_try ::
  "json option \<Rightarrow> json option \<Rightarrow> 'e env \<Rightarrow> effect list \<times> ('e thrown + unit)" where
  "saveChartConfiguration_try chartConfiguration globalChartConfiguration env =
     (let body = chart_config_payload chartConfiguration globalChartConfiguration env;
          request = Put (dashboard_id env) body
      in case updateDashboard env (dashboard_id env) body of
           Rejects e \<Rightarrow> ([request], Inl (Http_error e))
         | Resolves r \<Rightarrow>
             (case JSON_parse (json_metadata r) of
                Inl err \<Rightarrow> ([request], Inl err)
              | Inr md \<Rightarrow>
                  ([request, Dispatch (DASHBOARD_INFO_UPDATED md),
                    Dispatch (SAVE_CHART_CONFIG_COMPLETE chartConfiguration
                      globalChartConfiguration)], Inr ())))"

text \<open>
  \<^verbatim>\<open>
  dispatch({ type: SAVE_CHART_CONFIG_BEGIN, chartConfiguration, globalChartConfiguration });
  const { id, metadata } = getState().dashboardInfo;
  try { ... } catch (err) {
    dispatch({ type: SAVE_CHART_CONFIG_FAIL, chartConfiguration, globalChartConfiguration });
    dispatch(addDangerToast(t('Failed to save cross-filter scoping')));
  }\<close>
\<close>

definition saveChartConfiguration ::
  "json option \<Rightarrow> json option \<Rightarrow> 'e env \<Rightarrow> effect list \<times> ('e thrown + unit)" where
  "saveChartConfiguration chartConfiguration globalChartConfiguration env =
     (let started = Dispatch (SAVE_CHART_CONFIG_BEGIN chartConfiguration globalChartConfiguration)
      in case saveChartConfiguration_try chartConfiguration globalChartConfiguration env of
           (did, Inr u) \<Rightarrow> (started # did, Inr ())
         | (did, Inl err) \<Rightarrow>
             (started # did @
                [Dispatch (SAVE_CHART_CONFIG_FAIL chartConfiguration globalChartConfiguration),
                 Dispatch (ADD_DANGER_TOAST
                   (translate env ''Failed to save cross-filter scoping''))],
              Inr ()))"

text \<open>
  The \<open>catch\<close> block the other three thunks share:
  \<^verbatim>\<open>
  catch (errorObject) {
    const errorText = await getErrorText(errorObject, 'dashboard');
    dispatch(addDangerToast(errorText));
    throw errorObject;
  }\<close>
\<close>

definition toast_and_rethrow ::
  "'e env \<Rightarrow> effect list \<times> ('e thrown + unit) \<Rightarrow> effect list \<times> ('e thrown + unit)" where
  "toast_and_rethrow env tried =
     (case tried of
        (did, Inr u) \<Rightarrow> (did, Inr ())
      | (did, Inl errorObject) \<Rightarrow>
          (did @ [Dispatch (ADD_DANGER_TOAST (getErrorText env errorObject ''dashboard''))],
           Inl errorObject))"

text \<open>\<^verbatim>\<open>if (lastModifiedTime) { dispatch(onSave(lastModifiedTime)); }\<close>\<close>

definition dispatch_onSave :: "response \<Rightarrow> effect list" where
  "dispatch_onSave r =
     (case last_modified_time r of
        None \<Rightarrow> []
      | Some lastModifiedTime \<Rightarrow>
          if lastModifiedTime \<noteq> 0 then [Dispatch (ON_SAVE lastModifiedTime)] else [])"

text \<open>
  \<^verbatim>\<open>
  const response = await updateDashboard({ theme_id: themeId });
  if (themeId === null) {
    dispatch(setDashboardTheme(null));
  } else if (response.result.theme) {
    dispatch(setDashboardTheme(response.result.theme));
  } else {
    dispatch(setDashboardTheme({ id: themeId, name: `Theme ${themeId}` }));
  }
  const lastModifiedTime = response.last_modified_time;
  if (lastModifiedTime) { dispatch(onSave(lastModifiedTime)); }\<close>
\<close>

definition updateDashboardTheme_try ::
  "int option \<Rightarrow> 'e env \<Rightarrow> effect list \<times> ('e thrown + unit)" where
  "updateDashboardTheme_try themeId env =
     (let request = Put (dashboard_id env) (Theme_id themeId)
      in case updateDashboard env (dashboard_id env) (Theme_id themeId) of
           Rejects e \<Rightarrow> ([request], Inl (Http_error e))
         | Resolves r \<Rightarrow>
             (request #
                Dispatch (SET_DASHBOARD_THEME
                  (case themeId of
                     None \<Rightarrow> None
                   | Some n \<Rightarrow>
                       (case result_theme r of
                          Some th \<Rightarrow> Some th
                        | None \<Rightarrow> Some \<lparr>theme_id = n, theme_name = Theme_number n\<rparr>))) #
                dispatch_onSave r,
              Inr ()))"

definition updateDashboardTheme ::
  "int option \<Rightarrow> 'e env \<Rightarrow> effect list \<times> ('e thrown + unit)" where
  "updateDashboardTheme themeId env = toast_and_rethrow env (updateDashboardTheme_try themeId env)"

text \<open>
  \<^verbatim>\<open>
  const response = await updateDashboard({
    json_metadata: JSON.stringify({ ...metadata, filter_bar_orientation: orientation }) });
  const updatedDashboard = response.result;
  const lastModifiedTime = response.last_modified_time;
  if (updatedDashboard.json_metadata) {
    const metadata = JSON.parse(updatedDashboard.json_metadata);
    if (metadata.filter_bar_orientation) {
      dispatch(setFilterBarOrientation(metadata.filter_bar_orientation));
    }
  }
  if (lastModifiedTime) { dispatch(onSave(lastModifiedTime)); }\<close>
\<close>

fun orientation_json :: "orientation \<Rightarrow> json" where
  "orientation_json VERTICAL = JStr ''VERTICAL''"
| "orientation_json HORIZONTAL = JStr ''HORIZONTAL''"

text \<open>\<open>if (updatedDashboard.json_metadata)\<close>: the string is there and not empty.\<close>

fun has_json_metadata :: "response \<Rightarrow> bool" where
  "has_json_metadata r =
     (case json_metadata r of None \<Rightarrow> False | Some Empty_text \<Rightarrow> False | Some _ \<Rightarrow> True)"

definition saveFilterBarOrientation_try ::
  "orientation \<Rightarrow> 'e env \<Rightarrow> effect list \<times> ('e thrown + unit)" where
  "saveFilterBarOrientation_try orientation env =
     (let body = Json_metadata (JSON_stringify
            (spread (map (\<lambda>(k, v). (k, Some v)) (metadata env))
               [(''filter_bar_orientation'', Some (orientation_json orientation))]));
          request = Put (dashboard_id env) body
      in case updateDashboard env (dashboard_id env) body of
           Rejects e \<Rightarrow> ([request], Inl (Http_error e))
         | Resolves r \<Rightarrow>
             (if has_json_metadata r then
                (case JSON_parse (json_metadata r) of
                   Inl err \<Rightarrow> ([request], Inl err)
                 | Inr md \<Rightarrow>
                     (case get_prop md ''filter_bar_orientation'' of
                        Inl err \<Rightarrow> ([request], Inl err)
                      | Inr None \<Rightarrow> (request # dispatch_onSave r, Inr ())
                      | Inr (Some v) \<Rightarrow>
                          (if truthy v
                           then (request # Dispatch (SET_FILTER_BAR_ORIENTATION v)
                                   # dispatch_onSave r, Inr ())
                           else (request # dispatch_onSave r, Inr ()))))
              else (request # dispatch_onSave r, Inr ())))"

definition saveFilterBarOrientation ::
  "orientation \<Rightarrow> 'e env \<Rightarrow> effect list \<times> ('e thrown + unit)" where
  "saveFilterBarOrientation orientation env =
     toast_and_rethrow env (saveFilterBarOrientation_try orientation env)"

text \<open>
  \<^verbatim>\<open>
  const response = await updateDashboard({
    json_metadata: JSON.stringify({ ...metadata, cross_filters_enabled: crossFiltersEnabled }) });
  const updatedDashboard = response.result;
  const lastModifiedTime = response.last_modified_time;
  if (updatedDashboard.json_metadata) {
    const metadata = JSON.parse(updatedDashboard.json_metadata);
    dispatch(setCrossFiltersEnabled(metadata.cross_filters_enabled));
  }
  if (lastModifiedTime) { dispatch(onSave(lastModifiedTime)); }\<close>
\<close>

definition saveCrossFiltersSetting_try ::
  "bool \<Rightarrow> 'e env \<Rightarrow> effect list \<times> ('e thrown + unit)" where
  "saveCrossFiltersSetting_try crossFiltersEnabled env =
     (let body = Json_metadata (JSON_stringify
            (spread (map (\<lambda>(k, v). (k, Some v)) (metadata env))
               [(''cross_filters_enabled'', Some (JBool crossFiltersEnabled))]));
          request = Put (dashboard_id env) body
      in case updateDashboard env (dashboard_id env) body of
           Rejects e \<Rightarrow> ([request], Inl (Http_error e))
         | Resolves r \<Rightarrow>
             (if has_json_metadata r then
                (case JSON_parse (json_metadata r) of
                   Inl err \<Rightarrow> ([request], Inl err)
                 | Inr md \<Rightarrow>
                     (case get_prop md ''cross_filters_enabled'' of
                        Inl err \<Rightarrow> ([request], Inl err)
                      | Inr v \<Rightarrow>
                          (request # Dispatch (SET_CROSS_FILTERS_ENABLED v)
                             # dispatch_onSave r, Inr ())))
              else (request # dispatch_onSave r, Inr ())))"

definition saveCrossFiltersSetting ::
  "bool \<Rightarrow> 'e env \<Rightarrow> effect list \<times> ('e thrown + unit)" where
  "saveCrossFiltersSetting crossFiltersEnabled env =
     toast_and_rethrow env (saveCrossFiltersSetting_try crossFiltersEnabled env)"

section \<open>Invariants of the loader\<close>

text \<open>The callbacks that may still run: those a promise holds and those queued as jobs.\<close>

definition callbacks :: "('c, 'p, 'r) loader_state \<Rightarrow> reaction set" where
  "callbacks s = (\<Union>pr \<in> set (promises s). set (reactions pr)) \<union> fst ` set (microtasks s)"

text \<open>
  At most one promise exists and \<open>promise\<close>, once set, is that one; before the first call
  of \<open>waitForPromise\<close> nothing is stored, queued or registered; the factory was invoked
  once for each promise it made; every call returned the value of \<open>promise\<close>.
\<close>

definition heap_inv :: "load_request \<Rightarrow> ('c, 'p, 'r) loader_state \<Rightarrow> bool" where
  "heap_inv lc s \<longleftrightarrow>
     length (promises s) \<le> 1 \<and>
     (lc = Given_promise \<longrightarrow> length (promises s) = 1 \<and> factory_calls s = 0) \<and>
     (lc = Factory \<longrightarrow> factory_calls s = length (promises s)) \<and>
     (promise s = None \<longrightarrow>
        component s = None \<and> microtasks s = [] \<and> returned s = [] \<and>
        (lc = Factory \<longrightarrow> promises s = []) \<and>
        (\<forall>pr \<in> set (promises s). reactions pr = [])) \<and>
     (\<forall>p. promise s = Some p \<longrightarrow> p = 0 \<and> length (promises s) = 1) \<and>
     (\<forall>p \<in> set (returned s). promise s = Some p)"

text \<open>
  Every queued job carries the value the promise was fulfilled with, \<open>component\<close> holds
  nothing but the unit of that value, and a settled promise holds no callbacks.
\<close>

definition value_inv :: "('c, 'p, 'r) loader_state \<Rightarrow> bool" where
  "value_inv s \<longleftrightarrow>
     (\<forall>(cb, v) \<in> set (microtasks s). promises s \<noteq> [] \<and> status (promises s ! 0) = Fulfilled v) \<and>
     (\<forall>c. component s = Some c \<longrightarrow>
        promises s \<noteq> [] \<and> (\<exists>v. status (promises s ! 0) = Fulfilled v \<and> c = unwrap_default v)) \<and>
     (\<forall>pr \<in> set (promises s). status pr \<noteq> Pending \<longrightarrow> reactions pr = [])"

text \<open>
  Once \<open>waitForPromise\<close> has been called and until \<open>component\<close> is set, a callback that
  stores the unit is registered (promise pending) or queued (promise fulfilled).
\<close>

definition store_inv :: "('c, 'p, 'r) loader_state \<Rightarrow> bool" where
  "store_inv s \<longleftrightarrow>
     (promise s \<noteq> None \<and> component s = None \<longrightarrow>
        promises s \<noteq> [] \<and>
        (case status (promises s ! 0) of
           Pending \<Rightarrow> Store_component \<in> set (reactions (promises s ! 0))
         | Fulfilled v \<Rightarrow> (Store_component, v) \<in> set (microtasks s)
         | Rejected \<Rightarrow> True))"

text \<open>
  No unmounted instance has received \<open>setLoaded\<close>, and a callback of an effect whose
  \<open>isMounted\<close> is still true belongs to a mounted instance whose latest effect it is.
\<close>

definition cell_inv :: "('c, 'p, 'r) loader_state \<Rightarrow> bool" where
  "cell_inv s \<longleftrightarrow>
     stale_updates s = [] \<and>
     (\<forall>i c. Set_loaded i c \<in> callbacks s \<longrightarrow>
        i < length (instances s) \<and> c < length (cells s) \<and>
        (cells s ! c \<longrightarrow> mounted (instances s ! i) \<and> cleanup (instances s ! i) = Some c))"

text \<open>The three invariants of the promise side, together.\<close>

definition promise_inv :: "load_request \<Rightarrow> ('c, 'p, 'r) loader_state \<Rightarrow> bool" where
  "promise_inv lc s \<longleftrightarrow> heap_inv lc s \<and> value_inv s \<and> store_inv s"

text \<open>
  Every render so far returned what the render function gives without a resolved unit,
  or what it gives with the unit now stored.
\<close>

definition render_inv :: "'c option \<Rightarrow> ('c, 'p, 'r) loader_state \<Rightarrow> bool" where
  "render_inv ph s \<longleftrightarrow>
     (\<forall>(i, props, ref, out) \<in> set (rendered s).
        out = AsyncComponent_render None ph props ref \<or>
        out = AsyncComponent_render (component s) ph props ref)"

text \<open>An instance is loaded, or has seen itself loaded, only when the promise is fulfilled.\<close>

definition loaded_inv :: "('c, 'p, 'r) loader_state \<Rightarrow> bool" where
  "loaded_inv s \<longleftrightarrow>
     (\<forall>inst \<in> set (instances s). loaded inst \<or> seen_loaded inst \<longrightarrow>
        promises s \<noteq> [] \<and> (\<exists>v. status (promises s ! 0) = Fulfilled v))"

text \<open>Nothing was rendered before the first instance was mounted.\<close>

definition first_render_inv :: "('c, 'p, 'r) loader_state \<Rightarrow> bool" where
  "first_render_inv s \<longleftrightarrow> (instances s = [] \<longrightarrow> rendered s = [])"


text \<open>The actions that end the lifecycle of \<open>saveChartConfiguration\<close>.\<close>

fun is_outcome :: "effect \<Rightarrow> bool" where
  "is_outcome (Dispatch (SAVE_CHART_CONFIG_COMPLETE c g)) = True"
| "is_outcome (Dispatch (SAVE_CHART_CONFIG_FAIL c g)) = True"
| "is_outcome _ = False"

subsection \<open>Fields that \<open>then\<close> and \<open>waitForPromise\<close> leave alone\<close>

lemma then_cb_fields [simp]:
  "promise (then_cb p cb s) = promise s"
  "component (then_cb p cb s) = component s"
  "cells (then_cb p cb s) = cells s"
  "instances (then_cb p cb s) = instances s"
  "factory_calls (then_cb p cb s) = factory_calls s"
  "returned (then_cb p cb s) = returned s"
  "rendered (then_cb p cb s) = rendered s"
  "stale_updates (then_cb p cb s) = stale_updates s"
  "length (promises (then_cb p cb s)) = length (promises s)"
  by (simp_all add: then_cb_def split: status.splits)

lemma ensure_promise_fields [simp]:
  "component (snd (ensure_promise lc s)) = component s"
  "cells (snd (ensure_promise lc s)) = cells s"
  "instances (snd (ensure_promise lc s)) = instances s"
  "rendered (snd (ensure_promise lc s)) = rendered s"
  "returned (snd (ensure_promise lc s)) = returned s"
  "microtasks (snd (ensure_promise lc s)) = microtasks s"
  "stale_updates (snd (ensure_promise lc s)) = stale_updates s"
  by (simp_all add: ensure_promise_def call_factory_def Let_def split: option.splits load_request.splits prod.splits)

lemma waitForPromise_fields [simp]:
  "component (snd (waitForPromise lc s)) = component s"
  "cells (snd (waitForPromise lc s)) = cells s"
  "instances (snd (waitForPromise lc s)) = instances s"
  "rendered (snd (waitForPromise lc s)) = rendered s"
  "stale_updates (snd (waitForPromise lc s)) = stale_updates s"
proof -
  obtain p s1 where e: "ensure_promise lc s = (p, s1)"
    by (cases "ensure_promise lc s")
  have s1: "s1 = snd (ensure_promise lc s)"
    by (simp add: e)
  show "component (snd (waitForPromise lc s)) = component s"
    "cells (snd (waitForPromise lc s)) = cells s"
    "instances (snd (waitForPromise lc s)) = instances s"
    "rendered (snd (waitForPromise lc s)) = rendered s"
    "stale_updates (snd (waitForPromise lc s)) = stale_updates s"
    by (simp_all add: waitForPromise_def e split: option.splits) (simp_all add: s1)
qed

lemma heap_inv_init: "heap_inv lc (init lc)"
  by (cases lc) (simp_all add: heap_inv_def init_def new_promise_def)

lemma value_inv_init: "value_inv (init lc)"
  by (cases lc) (simp_all add: value_inv_def init_def new_promise_def)

lemma store_inv_init: "store_inv (init lc)"
  by (simp add: store_inv_def init_def)

lemma cell_inv_init: "cell_inv (init lc)"
  by (cases lc) (simp_all add: cell_inv_def callbacks_def init_def new_promise_def)

lemma heap_inv_waitForPromise:
  "heap_inv lc s \<Longrightarrow> heap_inv lc (snd (waitForPromise lc s))"
  apply (cases lc; cases "promise s"; cases "component s")
  apply (auto simp: heap_inv_def waitForPromise_def ensure_promise_def call_factory_def Let_def then_cb_def new_promise_def
      split: option.splits load_request.splits prod.splits status.splits)
  done

lemma in_update_reactions:
  assumes "pr \<in> set (ps[p := q])" "x \<in> set (reactions pr)"
  shows "x \<in> set (reactions q) \<or> (\<exists>pr' \<in> set ps. x \<in> set (reactions pr'))"
  using assms set_update_subset_insert [of ps p q] by auto

lemma callbacks_then_cb: "callbacks (then_cb p cb s) \<subseteq> insert cb (callbacks s)"
proof
  fix x assume x: "x \<in> callbacks (then_cb p cb s)"
  show "x \<in> insert cb (callbacks s)"
  proof (cases "p < length (promises s)")
    case False
    with x show ?thesis by (simp add: then_cb_def)
  next
    case True
    then have mem: "promises s ! p \<in> set (promises s)" by simp
    show ?thesis
    proof (cases "status (promises s ! p)")
      case Pending
      with x True mem show ?thesis
        by (auto simp: callbacks_def then_cb_def dest!: in_update_reactions)
    next
      case (Fulfilled v)
      with x True show ?thesis by (auto simp: callbacks_def then_cb_def)
    next
      case Rejected
      with x True show ?thesis by (simp add: then_cb_def)
    qed
  qed
qed

lemma callbacks_ensure_promise [simp]:
  "callbacks (snd (ensure_promise lc s)) = callbacks s"
  by (simp add: callbacks_def ensure_promise_def call_factory_def new_promise_def
      split: option.splits load_request.splits)

lemma callbacks_returned [simp]: "callbacks (s\<lparr>returned := x\<rparr>) = callbacks s"
  by (simp add: callbacks_def)

lemma callbacks_waitForPromise:
  "callbacks (snd (waitForPromise lc s)) \<subseteq> insert Store_component (callbacks s)"
proof (cases "ensure_promise lc s")
  case (Pair p s1)
  then have "callbacks s1 = callbacks s"
    using callbacks_ensure_promise [of lc s] by simp
  with Pair show ?thesis
    using callbacks_then_cb [of p Store_component s1]
    by (auto simp: waitForPromise_def split: option.splits)
qed

lemma callbacks_settle: "callbacks (settle p out s) \<subseteq> callbacks s"
proof (cases "p < length (promises s)")
  case False
  then show ?thesis by (simp add: settle_def)
next
  case True
  then have mem: "promises s ! p \<in> set (promises s)" by simp
  show ?thesis
  proof (cases "status (promises s ! p)")
    case Pending
    with True mem show ?thesis
      by (cases out) (auto simp: callbacks_def settle_def dest!: in_update_reactions)
  qed (use True in \<open>simp_all add: settle_def\<close>)
qed

subsection \<open>waitForPromise keeps the invariants\<close>

lemma ensure_promise_shape:
  assumes "heap_inv lc s"
  shows "fst (ensure_promise lc s) = 0"
    and "promise (snd (ensure_promise lc s)) = Some 0"
    and "length (promises (snd (ensure_promise lc s))) = 1"
    and "heap_inv lc (snd (ensure_promise lc s)\<lparr>returned := returned s @ [0]\<rparr>)"
  using assms
  by (cases lc; cases "promise s";
      auto simp: heap_inv_def ensure_promise_def call_factory_def new_promise_def)+

lemma heap_inv_then_cb:
  "heap_inv lc s \<Longrightarrow> promise s \<noteq> None \<Longrightarrow> heap_inv lc (then_cb p cb s)"
  by (auto simp: heap_inv_def then_cb_def split: status.splits)

lemma value_inv_ensure_promise:
  "heap_inv lc s \<Longrightarrow> value_inv s \<Longrightarrow> value_inv (snd (ensure_promise lc s))"
  by (cases lc; cases "promise s";
      auto simp: heap_inv_def value_inv_def ensure_promise_def call_factory_def new_promise_def)

lemma value_inv_then_cb:
  assumes "value_inv s" "length (promises s) \<le> 1"
  shows "value_inv (then_cb p cb s)"
proof (cases "p < length (promises s)")
  case False
  with assms show ?thesis by (simp add: then_cb_def)
next
  case True
  with assms(2) obtain pr where ps: "promises s = [pr]" and p: "p = 0"
    by (cases "promises s") auto
  from assms(1) show ?thesis
    by (cases "status pr") (auto simp: value_inv_def then_cb_def ps p)
qed

lemma store_inv_then_cb:
  assumes "store_inv s" "length (promises s) \<le> 1"
  shows "store_inv (then_cb p cb s)"
proof (cases "p < length (promises s)")
  case False
  with assms show ?thesis by (simp add: then_cb_def)
next
  case True
  with assms(2) obtain pr where ps: "promises s = [pr]" and p: "p = 0"
    by (cases "promises s") auto
  from assms(1) show ?thesis
    by (cases "status pr") (auto simp: store_inv_def then_cb_def ps p)
qed

lemma then_cb_Store_present:
  assumes "length (promises s) = 1" "component s = None"
  shows "store_inv (then_cb 0 Store_component s)"
proof -
  from assms(1) obtain pr where ps: "promises s = [pr]"
    by (cases "promises s") auto
  show ?thesis
    by (cases "status pr") (auto simp: store_inv_def then_cb_def ps)
qed

lemma value_inv_returned [simp]: "value_inv (s\<lparr>returned := x\<rparr>) = value_inv s"
  by (simp add: value_inv_def)

lemma store_inv_returned [simp]: "store_inv (s\<lparr>returned := x\<rparr>) = store_inv s"
  by (simp add: store_inv_def split: status.splits)

lemma waitForPromise_unfold:
  assumes "heap_inv lc s"
  shows "waitForPromise lc s =
    (0, (case component s of
           None \<Rightarrow> then_cb 0 Store_component (snd (ensure_promise lc s))
         | Some _ \<Rightarrow> snd (ensure_promise lc s))\<lparr>returned := returned s @ [0]\<rparr>)"
proof -
  obtain p s1 where e: "ensure_promise lc s = (p, s1)"
    by (cases "ensure_promise lc s")
  have "p = 0" "component s1 = component s" "returned s1 = returned s"
    using ensure_promise_shape(1) [OF assms] ensure_promise_fields [of lc s] by (simp_all add: e)
  then show ?thesis
    by (simp add: waitForPromise_def e split: option.splits)
qed

lemma value_inv_waitForPromise:
  assumes "heap_inv lc s" "value_inv s"
  shows "value_inv (snd (waitForPromise lc s))"
proof -
  have "value_inv (snd (ensure_promise lc s))"
    using assms by (rule value_inv_ensure_promise)
  moreover have "length (promises (snd (ensure_promise lc s))) \<le> 1"
    using ensure_promise_shape(3) [OF assms(1)] by simp
  ultimately show ?thesis
    by (simp add: waitForPromise_unfold [OF assms(1)] value_inv_then_cb split: option.splits)
qed

lemma store_inv_waitForPromise:
  assumes "heap_inv lc s"
  shows "store_inv (snd (waitForPromise lc s))"
proof (cases "component s")
  case None
  then show ?thesis
    using then_cb_Store_present [of "snd (ensure_promise lc s)"] ensure_promise_shape(3) [OF assms]
    by (simp add: waitForPromise_unfold [OF assms])
next
  case (Some c)
  then show ?thesis
    by (simp add: waitForPromise_unfold [OF assms] store_inv_def)
qed

lemma waitForPromise_promise:
  "heap_inv lc s \<Longrightarrow> promise (snd (waitForPromise lc s)) = Some 0"
  by (simp add: waitForPromise_unfold ensure_promise_shape(2) split: option.splits)

subsection \<open>Settling a promise\<close>

lemma settle_fields [simp]:
  "promise (settle p out s) = promise s"
  "component (settle p out s) = component s"
  "cells (settle p out s) = cells s"
  "instances (settle p out s) = instances s"
  "factory_calls (settle p out s) = factory_calls s"
  "returned (settle p out s) = returned s"
  "rendered (settle p out s) = rendered s"
  "stale_updates (settle p out s) = stale_updates s"
  "length (promises (settle p out s)) = length (promises s)"
  by (simp_all add: settle_def split: status.splits outcome.splits)

lemma heap_inv_settle: "heap_inv lc s \<Longrightarrow> heap_inv lc (settle p out s)"
proof (cases "p < length (promises s)")
  case False
  then show "heap_inv lc s \<Longrightarrow> ?thesis" by (simp add: settle_def)
next
  case True
  assume h: "heap_inv lc s"
  with True obtain pr where ps: "promises s = [pr]" and p: "p = 0"
    by (cases "promises s") (auto simp: heap_inv_def)
  from h show ?thesis
    by (cases "status pr"; cases out) (auto simp: heap_inv_def settle_def ps p)
qed

lemma value_inv_settle:
  assumes "length (promises s) \<le> 1" "value_inv s"
  shows "value_inv (settle p out s)"
proof (cases "p < length (promises s)")
  case False
  with assms show ?thesis by (simp add: settle_def)
next
  case True
  with assms(1) obtain pr where ps: "promises s = [pr]" and p: "p = 0"
    by (cases "promises s") auto
  from assms(2) show ?thesis
    by (cases "status pr"; cases out) (auto simp: value_inv_def settle_def ps p)
qed

lemma store_inv_settle:
  assumes "length (promises s) \<le> 1" "store_inv s"
  shows "store_inv (settle p out s)"
proof (cases "p < length (promises s)")
  case False
  with assms show ?thesis by (simp add: settle_def)
next
  case True
  with assms(1) obtain pr where ps: "promises s = [pr]" and p: "p = 0"
    by (cases "promises s") auto
  from assms(2) show ?thesis
    by (cases "status pr"; cases out) (auto simp: store_inv_def settle_def ps p)
qed

subsection \<open>Fields the host's operations leave alone\<close>

lemma setLoaded_fields [simp]:
  "promise (setLoaded i s) = promise s"
  "component (setLoaded i s) = component s"
  "promises (setLoaded i s) = promises s"
  "microtasks (setLoaded i s) = microtasks s"
  "cells (setLoaded i s) = cells s"
  "factory_calls (setLoaded i s) = factory_calls s"
  "returned (setLoaded i s) = returned s"
  "rendered (setLoaded i s) = rendered s"
  "length (instances (setLoaded i s)) = length (instances s)"
  by (simp_all add: setLoaded_def)

lemma run_cleanup_fields [simp]:
  "promise (run_cleanup c s) = promise s"
  "component (run_cleanup c s) = component s"
  "promises (run_cleanup c s) = promises s"
  "microtasks (run_cleanup c s) = microtasks s"
  "instances (run_cleanup c s) = instances s"
  "factory_calls (run_cleanup c s) = factory_calls s"
  "returned (run_cleanup c s) = returned s"
  "rendered (run_cleanup c s) = rendered s"
  "stale_updates (run_cleanup c s) = stale_updates s"
  "length (cells (run_cleanup c s)) = length (cells s)"
  by (simp_all add: run_cleanup_def split: option.splits)

lemma heap_inv_cong:
  assumes "promise t = promise s" "component t = component s" "promises t = promises s"
    "microtasks t = microtasks s" "factory_calls t = factory_calls s" "returned t = returned s"
  shows "heap_inv lc t = heap_inv lc s"
  by (simp add: heap_inv_def assms)

lemma value_inv_cong:
  assumes "component t = component s" "promises t = promises s" "microtasks t = microtasks s"
  shows "value_inv t = value_inv s"
  by (simp add: value_inv_def assms)

lemma store_inv_cong:
  assumes "promise t = promise s" "component t = component s" "promises t = promises s"
    "microtasks t = microtasks s"
  shows "store_inv t = store_inv s"
  by (simp add: store_inv_def assms split: status.splits)

lemma callbacks_cong:
  assumes "promises t = promises s" "microtasks t = microtasks s"
  shows "callbacks t = callbacks s"
  by (simp add: callbacks_def assms)

subsection \<open>Running a promise job\<close>

lemma step_Microtask_cases:
  obtains (idle) "microtasks s = []" "step lc ph s Microtask = s"
  | (store) v js where "microtasks s = (Store_component, v) # js"
      "step lc ph s Microtask = s\<lparr>microtasks := js, component := Some (unwrap_default v)\<rparr>"
  | (notify) i c v js where "microtasks s = (Set_loaded i c, v) # js"
      "c < length (cells s)" "cells s ! c"
      "step lc ph s Microtask = setLoaded i (s\<lparr>microtasks := js\<rparr>)"
  | (dead) i c v js where "microtasks s = (Set_loaded i c, v) # js"
      "\<not> (c < length (cells s) \<and> cells s ! c)"
      "step lc ph s Microtask = s\<lparr>microtasks := js\<rparr>"
proof (cases "microtasks s")
  case Nil
  then show ?thesis using idle by simp
next
  case (Cons j js)
  obtain cb v where j: "j = (cb, v)" by (cases j)
  show ?thesis
  proof (cases cb)
    case Store_component
    with Cons j show ?thesis using store by simp
  next
    case (Set_loaded i c)
    with Cons j show ?thesis using notify [of i c v js] dead [of i c v js]
      by (cases "c < length (cells s) \<and> cells s ! c") simp_all
  qed
qed

lemma heap_inv_Microtask:
  assumes "heap_inv lc s"
  shows "heap_inv lc (step lc ph s Microtask)"
proof (cases rule: step_Microtask_cases [where s = s and lc = lc and ph = ph])
  case idle
  with assms show ?thesis by simp
next
  case (store v js)
  with assms show ?thesis by (auto simp: heap_inv_def)
next
  case (notify i c v js)
  with assms show ?thesis by (auto simp: heap_inv_def)
next
  case (dead i c v js)
  with assms show ?thesis by (auto simp: heap_inv_def)
qed

lemma value_inv_Microtask:
  assumes "value_inv s"
  shows "value_inv (step lc ph s Microtask)"
proof (cases rule: step_Microtask_cases [where s = s and lc = lc and ph = ph])
  case idle
  with assms show ?thesis by simp
next
  case (store v js)
  with assms show ?thesis by (auto simp: value_inv_def)
next
  case (notify i c v js)
  with assms show ?thesis by (auto simp: value_inv_def)
next
  case (dead i c v js)
  with assms show ?thesis by (auto simp: value_inv_def)
qed

lemma store_inv_Microtask:
  assumes "store_inv s"
  shows "store_inv (step lc ph s Microtask)"
proof (cases rule: step_Microtask_cases [where s = s and lc = lc and ph = ph])
  case idle
  with assms show ?thesis by simp
next
  case (store v js)
  with assms show ?thesis by (auto simp: store_inv_def)
next
  case (notify i c v js)
  with assms show ?thesis by (auto simp: store_inv_def split: status.splits)
next
  case (dead i c v js)
  with assms show ?thesis by (auto simp: store_inv_def split: status.splits)
qed

subsection \<open>The invariant of the promise side\<close>

lemma promise_inv_frame:
  assumes "promise_inv lc s"
    and "promise t = promise s" "component t = component s" "promises t = promises s"
    "microtasks t = microtasks s" "factory_calls t = factory_calls s" "returned t = returned s"
  shows "promise_inv lc t"
  using assms(1) heap_inv_cong [OF assms(2-7), of lc] value_inv_cong [OF assms(3,4,5)]
    store_inv_cong [OF assms(2,3,4,5)]
  by (simp add: promise_inv_def)

lemma promise_inv_init: "promise_inv lc (init lc)"
  by (simp add: promise_inv_def heap_inv_init value_inv_init store_inv_init)

lemma promise_inv_waitForPromise:
  "promise_inv lc s \<Longrightarrow> promise_inv lc (snd (waitForPromise lc s))"
  by (simp add: promise_inv_def heap_inv_waitForPromise value_inv_waitForPromise
      store_inv_waitForPromise)

lemma promise_inv_then_cb:
  assumes "promise_inv lc s" "promise s \<noteq> None"
  shows "promise_inv lc (then_cb p cb s)"
proof -
  from assms have "length (promises s) \<le> 1"
    by (simp add: promise_inv_def heap_inv_def)
  with assms show ?thesis
    by (simp add: promise_inv_def heap_inv_then_cb value_inv_then_cb store_inv_then_cb)
qed

lemma promise_inv_settle:
  assumes "promise_inv lc s"
  shows "promise_inv lc (settle p out s)"
proof -
  from assms have "length (promises s) \<le> 1"
    by (simp add: promise_inv_def heap_inv_def)
  with assms show ?thesis
    by (simp add: promise_inv_def heap_inv_settle value_inv_settle store_inv_settle)
qed

lemma promise_inv_Microtask: "promise_inv lc s \<Longrightarrow> promise_inv lc (step lc ph s Microtask)"
  by (simp only: promise_inv_def heap_inv_Microtask value_inv_Microtask store_inv_Microtask simp_thms)

lemma promise_inv_run_effect:
  assumes "promise_inv lc s"
  shows "promise_inv lc (run_effect lc i s)"
proof -
  define s2 where "s2 = (run_cleanup (cleanup (instances s ! i)) s)
      \<lparr>cells := cells (run_cleanup (cleanup (instances s ! i)) s) @ [True]\<rparr>"
  define s3 where "s3 = (if \<not> seen_loaded (instances s2 ! i)
      then then_cb (fst (waitForPromise lc s2)) (Set_loaded i (length (cells s))) (snd (waitForPromise lc s2))
      else s2)"
  have eq: "run_effect lc i s = s3\<lparr>instances := (instances s3)[i := (instances s3 ! i)
              \<lparr>effect_pending := False, cleanup := Some (length (cells s))\<rparr>]\<rparr>"
    by (simp add: run_effect_def s2_def s3_def Let_def case_prod_beta)
  have 2: "promise_inv lc s2"
    by (rule promise_inv_frame [OF assms]) (simp_all add: s2_def)
  have w: "promise_inv lc (snd (waitForPromise lc s2))"
    using 2 by (rule promise_inv_waitForPromise)
  have "promise (snd (waitForPromise lc s2)) \<noteq> None"
    using 2 by (simp add: waitForPromise_promise promise_inv_def)
  with w have "promise_inv lc s3"
    using 2 by (simp add: s3_def promise_inv_then_cb)
  then show ?thesis
    unfolding eq by (rule promise_inv_frame) simp_all
qed

lemma promise_inv_step:
  assumes "promise_inv lc s"
  shows "promise_inv lc (step lc ph s e)"
proof (cases e)
  case Preload
  with assms show ?thesis by (simp add: promise_inv_waitForPromise)
next
  case (Settle p out)
  with assms show ?thesis by (simp add: promise_inv_settle)
next
  case Microtask
  with assms show ?thesis by (simp only: promise_inv_Microtask)
next
  case (Render i props ref)
  show ?thesis
    by (rule promise_inv_frame [OF assms]) (simp_all add: Render)
next
  case (Effect i)
  with assms show ?thesis by (simp add: promise_inv_run_effect)
next
  case (Unmount i)
  show ?thesis
    by (rule promise_inv_frame [OF assms]) (simp_all add: Unmount Let_def)
qed

subsection \<open>The invariant of the \<open>isMounted\<close> variables\<close>

lemma cell_invI:
  assumes "stale_updates s = []"
    and "\<And>i c. Set_loaded i c \<in> callbacks s \<Longrightarrow>
        i < length (instances s) \<and> c < length (cells s) \<and>
        (cells s ! c \<longrightarrow> mounted (instances s ! i) \<and> cleanup (instances s ! i) = Some c)"
  shows "cell_inv s"
  using assms by (simp add: cell_inv_def)

lemma cell_invD:
  assumes "cell_inv s" "Set_loaded i c \<in> callbacks s"
  shows "i < length (instances s)" "c < length (cells s)"
    "cells s ! c \<Longrightarrow> mounted (instances s ! i)"
    "cells s ! c \<Longrightarrow> cleanup (instances s ! i) = Some c"
  using assms by (simp_all add: cell_inv_def)

lemma cell_inv_frame:
  assumes "cell_inv s" "callbacks t \<subseteq> insert Store_component (callbacks s)"
    "cells t = cells s" "instances t = instances s" "stale_updates t = stale_updates s"
  shows "cell_inv t"
proof (rule cell_invI)
  show "stale_updates t = []"
    using assms by (simp add: cell_inv_def)
next
  fix i c assume "Set_loaded i c \<in> callbacks t"
  with assms(2) have "Set_loaded i c \<in> callbacks s" by auto
  then show "i < length (instances t) \<and> c < length (cells t) \<and>
        (cells t ! c \<longrightarrow> mounted (instances t ! i) \<and> cleanup (instances t ! i) = Some c)"
    using cell_invD [OF assms(1)] assms(3,4) by simp
qed

lemma callbacks_pop:
  "microtasks s = j # js \<Longrightarrow> callbacks (s\<lparr>microtasks := js\<rparr>) \<subseteq> callbacks s"
  by (auto simp: callbacks_def)

lemma callbacks_component [simp]: "callbacks (s\<lparr>component := x\<rparr>) = callbacks s"
  by (simp add: callbacks_def)

lemma cell_inv_Microtask:
  assumes "cell_inv s"
  shows "cell_inv (step lc ph s Microtask)"
proof (cases rule: step_Microtask_cases [where s = s and lc = lc and ph = ph])
  case idle
  with assms show ?thesis by simp
next
  case (store v js)
  have "callbacks (s\<lparr>microtasks := js\<rparr>) \<subseteq> callbacks s"
    using store(1) by (rule callbacks_pop)
  then show ?thesis
    unfolding store(2) by (intro cell_inv_frame [OF assms]) auto
next
  case (dead i c v js)
  have "callbacks (s\<lparr>microtasks := js\<rparr>) \<subseteq> callbacks s"
    using dead(1) by (rule callbacks_pop)
  then show ?thesis
    unfolding dead(3) by (intro cell_inv_frame [OF assms]) auto
next
  case (notify i c v js)
  have sub: "callbacks (s\<lparr>microtasks := js\<rparr>) \<subseteq> callbacks s"
    using notify(1) by (rule callbacks_pop)
  have "Set_loaded i c \<in> callbacks s"
    using notify(1) by (force simp: callbacks_def)
  then have i: "i < length (instances s)" and m: "mounted (instances s ! i)"
    using cell_invD [OF assms] notify(3) by auto
  have eq: "step lc ph s Microtask =
      s\<lparr>microtasks := js, instances := (instances s)[i := (instances s ! i)\<lparr>loaded := True\<rparr>]\<rparr>"
    using i m unfolding notify(4) by (simp add: setLoaded_def)
  show ?thesis
    unfolding eq
  proof (rule cell_invI)
    fix j d
    assume "Set_loaded j d \<in> callbacks
        (s\<lparr>microtasks := js, instances := (instances s)[i := (instances s ! i)\<lparr>loaded := True\<rparr>]\<rparr>)"
    then have "Set_loaded j d \<in> callbacks s"
      using sub by (auto simp: callbacks_def)
    then show "j < length (instances (s\<lparr>microtasks := js, instances := (instances s)[i := (instances s ! i)\<lparr>loaded := True\<rparr>]\<rparr>)) \<and>
      d < length (cells (s\<lparr>microtasks := js, instances := (instances s)[i := (instances s ! i)\<lparr>loaded := True\<rparr>]\<rparr>)) \<and>
      (cells (s\<lparr>microtasks := js, instances := (instances s)[i := (instances s ! i)\<lparr>loaded := True\<rparr>]\<rparr>) ! d \<longrightarrow>
        mounted (instances (s\<lparr>microtasks := js, instances := (instances s)[i := (instances s ! i)\<lparr>loaded := True\<rparr>]\<rparr>) ! j) \<and>
        cleanup (instances (s\<lparr>microtasks := js, instances := (instances s)[i := (instances s ! i)\<lparr>loaded := True\<rparr>]\<rparr>) ! j) = Some d)"
      using cell_invD [OF assms, of j d] i by (auto simp: nth_list_update)
  qed (use assms in \<open>simp add: cell_inv_def\<close>)
qed

lemma cell_inv_Render:
  assumes "cell_inv s"
  shows "cell_inv (step lc ph s (Render i props ref))"
proof -
  define t where "t = step lc ph s (Render i props ref)"
  have st: "stale_updates t = []"
    using assms by (simp add: t_def cell_inv_def)
  have cb: "callbacks t = callbacks s"
    by (rule callbacks_cong) (simp_all add: t_def)
  have ce: "cells t = cells s"
    by (simp add: t_def)
  have len: "length (instances s) \<le> length (instances t)"
    by (simp add: t_def)
  have keep: "mounted (instances t ! j) = mounted (instances s ! j)
      \<and> cleanup (instances t ! j) = cleanup (instances s ! j)" if "j < length (instances s)" for j
    using that by (simp add: t_def nth_append nth_list_update)
  show ?thesis
    unfolding t_def [symmetric]
  proof (rule cell_invI [OF st])
    fix j d assume "Set_loaded j d \<in> callbacks t"
    then have "Set_loaded j d \<in> callbacks s" by (simp add: cb)
    from cell_invD [OF assms this] keep [of j] len
    show "j < length (instances t) \<and> d < length (cells t) \<and>
        (cells t ! d \<longrightarrow> mounted (instances t ! j) \<and> cleanup (instances t ! j) = Some d)"
      by (simp add: ce)
  qed
qed

lemma nth_update_False:
  "d < length xs \<Longrightarrow> xs[k := False] ! d \<longleftrightarrow> xs ! d \<and> k \<noteq> d"
  by (cases "k = d") simp_all

lemma cell_inv_Unmount:
  assumes "cell_inv s"
  shows "cell_inv (step lc ph s (Unmount i))"
proof (cases "i < length (instances s) \<and> mounted (instances s ! i)
         \<and> \<not> effect_pending (instances s ! i)")
  case False
  with assms show ?thesis by auto
next
  case True
  define t where "t = step lc ph s (Unmount i)"
  have st: "stale_updates t = []"
    using assms by (simp add: t_def cell_inv_def Let_def)
  have cb: "callbacks t = callbacks s"
    by (rule callbacks_cong) (simp_all add: t_def Let_def)
  have ce: "cells t = cells (run_cleanup (cleanup (instances s ! i)) s)"
    using True by (simp add: t_def Let_def)
  have len: "length (instances t) = length (instances s)"
    by (simp add: t_def Let_def)
  have keep: "instances t ! j = instances s ! j" if "j \<noteq> i" for j
    using that True by (simp add: t_def Let_def)
  show ?thesis
    unfolding t_def [symmetric]
  proof (rule cell_invI [OF st])
    fix j d assume "Set_loaded j d \<in> callbacks t"
    then have "Set_loaded j d \<in> callbacks s" by (simp add: cb)
    note D = cell_invD [OF assms this]
    have "mounted (instances t ! j) \<and> cleanup (instances t ! j) = Some d" if "cells t ! d"
    proof -
      from that have old: "cells s ! d" and ne: "cleanup (instances s ! i) \<noteq> Some d"
        using D(2) by (auto simp: ce run_cleanup_def nth_update_False split: option.splits)
      from D(4) [OF old] ne have "j \<noteq> i" by auto
      with D(3,4) [OF old] keep show ?thesis by simp
    qed
    with D(1,2) show "j < length (instances t) \<and> d < length (cells t) \<and>
        (cells t ! d \<longrightarrow> mounted (instances t ! j) \<and> cleanup (instances t ! j) = Some d)"
      by (simp add: len ce)
  qed
qed

lemma run_effect_fields:
  "stale_updates (run_effect lc i s) = stale_updates s"
  "component (run_effect lc i s) = component s"
  "rendered (run_effect lc i s) = rendered s"
  "cells (run_effect lc i s) = cells (run_cleanup (cleanup (instances s ! i)) s) @ [True]"
  "instances (run_effect lc i s) = (instances s)[i := (instances s ! i)
      \<lparr>effect_pending := False, cleanup := Some (length (cells s))\<rparr>]"
  by (simp_all add: run_effect_def Let_def case_prod_beta)

lemma callbacks_run_effect:
  "callbacks (run_effect lc i s)
     \<subseteq> insert (Set_loaded i (length (cells s))) (insert Store_component (callbacks s))"
proof -
  define s2 where "s2 = (run_cleanup (cleanup (instances s ! i)) s)
      \<lparr>cells := cells (run_cleanup (cleanup (instances s ! i)) s) @ [True]\<rparr>"
  define s3 where "s3 = (if \<not> seen_loaded (instances s2 ! i)
      then then_cb (fst (waitForPromise lc s2)) (Set_loaded i (length (cells s))) (snd (waitForPromise lc s2))
      else s2)"
  have eq: "run_effect lc i s = s3\<lparr>instances := (instances s3)[i := (instances s3 ! i)
              \<lparr>effect_pending := False, cleanup := Some (length (cells s))\<rparr>]\<rparr>"
    by (simp add: run_effect_def s2_def s3_def Let_def case_prod_beta)
  have 2: "callbacks s2 = callbacks s"
    by (rule callbacks_cong) (simp_all add: s2_def)
  have "callbacks s3 \<subseteq> insert (Set_loaded i (length (cells s))) (insert Store_component (callbacks s))"
    using callbacks_waitForPromise [of lc s2]
      callbacks_then_cb [of "fst (waitForPromise lc s2)" "Set_loaded i (length (cells s))"
        "snd (waitForPromise lc s2)"]
    by (auto simp: s3_def 2)
  moreover have "callbacks (run_effect lc i s) = callbacks s3"
    unfolding eq by (rule callbacks_cong) simp_all
  ultimately show ?thesis by simp
qed

lemma cell_inv_Effect:
  assumes "cell_inv s"
  shows "cell_inv (step lc ph s (Effect i))"
proof (cases "i < length (instances s) \<and> mounted (instances s ! i)
         \<and> effect_pending (instances s ! i)")
  case False
  with assms show ?thesis by auto
next
  case True
  define t where "t = run_effect lc i s"
  have st: "stale_updates t = []"
    using assms by (simp add: t_def cell_inv_def run_effect_fields)
  have ce: "cells t = cells (run_cleanup (cleanup (instances s ! i)) s) @ [True]"
    by (simp add: t_def run_effect_fields)
  have len: "length (instances t) = length (instances s)"
    by (simp add: t_def run_effect_fields)
  have keep: "instances t ! j = instances s ! j" if "j \<noteq> i" for j
    using that by (simp add: t_def run_effect_fields)
  have new: "mounted (instances t ! i)" "cleanup (instances t ! i) = Some (length (cells s))"
    using True by (simp_all add: t_def run_effect_fields)
  have "cell_inv t"
  proof (rule cell_invI [OF st])
    fix j d assume "Set_loaded j d \<in> callbacks t"
    then consider (fresh) "j = i" "d = length (cells s)" | (old) "Set_loaded j d \<in> callbacks s"
      using callbacks_run_effect [of lc i s] by (auto simp: t_def)
    then show "j < length (instances t) \<and> d < length (cells t) \<and>
        (cells t ! d \<longrightarrow> mounted (instances t ! j) \<and> cleanup (instances t ! j) = Some d)"
    proof cases
      case fresh
      with True new show ?thesis by (simp add: len ce)
    next
      case old
      note D = cell_invD [OF assms old]
      have "mounted (instances t ! j) \<and> cleanup (instances t ! j) = Some d" if "cells t ! d"
      proof -
        from that have o: "cells s ! d" and ne: "cleanup (instances s ! i) \<noteq> Some d"
          using D(2) by (auto simp: ce nth_append run_cleanup_def nth_update_False split: option.splits)
        from D(4) [OF o] ne have "j \<noteq> i" by auto
        with D(3,4) [OF o] keep show ?thesis by simp
      qed
      with D(1,2) show ?thesis by (simp add: len ce)
    qed
  qed
  with True show ?thesis by (simp add: t_def)
qed

lemma cell_inv_step:
  assumes "cell_inv s"
  shows "cell_inv (step lc ph s e)"
proof (cases e)
  case Preload
  show ?thesis
    unfolding Preload step.simps
    by (rule cell_inv_frame [OF assms callbacks_waitForPromise]) simp_all
next
  case (Settle p out)
  show ?thesis
    unfolding Settle step.simps
    by (rule cell_inv_frame [OF assms]) (use callbacks_settle [of p out s] in auto)
next
  case Microtask
  with assms show ?thesis by (simp only: cell_inv_Microtask)
next
  case (Render i props ref)
  with assms show ?thesis by (simp only: cell_inv_Render)
next
  case (Effect i)
  with assms show ?thesis by (simp only: cell_inv_Effect)
next
  case (Unmount i)
  with assms show ?thesis by (simp only: cell_inv_Unmount)
qed

subsection \<open>Every execution keeps the invariants\<close>

lemma foldl_step_inv:
  assumes "promise_inv lc s" "cell_inv s"
  shows "promise_inv lc (foldl (step lc ph) s es) \<and> cell_inv (foldl (step lc ph) s es)"
  using assms by (induction es arbitrary: s) (simp_all add: promise_inv_step cell_inv_step)

lemma run_inv: "promise_inv lc (run lc ph es)" "cell_inv (run lc ph es)"
  using foldl_step_inv [OF promise_inv_init cell_inv_init, of lc ph es]
  by (simp_all add: run_def)

lemma run_append: "run lc ph (es @ es') = foldl (step lc ph) (run lc ph es) es'"
  by (simp add: run_def)

lemma ensure_promise_stable:
  "promise s = Some p \<Longrightarrow> ensure_promise lc s = (p, s)"
  by (simp add: ensure_promise_def)

lemma waitForPromise_stable:
  "promise s = Some p \<Longrightarrow> promise (snd (waitForPromise lc s)) = Some p"
  by (simp add: waitForPromise_def ensure_promise_stable split: option.splits)

lemma promise_stable_step:
  assumes "promise s = Some p"
  shows "promise (step lc ph s e) = Some p"
proof (cases e)
  case Preload
  with assms show ?thesis by (simp add: waitForPromise_stable)
next
  case Microtask
  from assms show ?thesis
    unfolding Microtask
    by (cases rule: step_Microtask_cases [where s = s and lc = lc and ph = ph]) simp_all
next
  case (Effect i)
  have "promise ((run_cleanup c s)\<lparr>cells := x\<rparr>) = Some p" for c x
    using assms by simp
  from waitForPromise_stable [OF this] assms show ?thesis
    by (simp add: Effect run_effect_def Let_def case_prod_beta)
qed (use assms in \<open>simp_all add: Let_def\<close>)

lemma promise_stable:
  "promise s = Some p \<Longrightarrow> promise (foldl (step lc ph) s es) = Some p"
  by (induction es arbitrary: s) (simp_all add: promise_stable_step)

lemma component_stable_step:
  assumes "promise_inv lc s" "component s = Some c"
  shows "component (step lc ph s e) = Some c"
proof (cases e)
  case Microtask
  have "component (step lc ph s Microtask) = Some c"
  proof (cases rule: step_Microtask_cases [where s = s and lc = lc and ph = ph])
    case (store v js)
    with assms show ?thesis
      by (auto simp: promise_inv_def value_inv_def)
  qed (use assms in simp_all)
  then show ?thesis by (simp only: Microtask)
qed (use assms in \<open>simp_all add: Let_def run_effect_fields\<close>)

lemma component_stable:
  "promise_inv lc s \<Longrightarrow> component s = Some c \<Longrightarrow> component (foldl (step lc ph) s es) = Some c"
  by (induction es arbitrary: s) (simp_all add: promise_inv_step component_stable_step)

lemma returned_waitForPromise:
  "length (returned (snd (waitForPromise lc s))) = Suc (length (returned s))"
proof -
  obtain p s1 where e: "ensure_promise lc s = (p, s1)"
    by (cases "ensure_promise lc s")
  have "returned s1 = returned s"
    using ensure_promise_fields [of lc s] by (simp add: e)
  then show ?thesis
    by (simp add: waitForPromise_def e split: option.splits)
qed

lemma returned_step:
  "length (returned s) \<le> length (returned (step lc ph s e))"
proof (cases e)
  case Microtask
  have "length (returned s) \<le> length (returned (step lc ph s Microtask))"
    by (cases rule: step_Microtask_cases [where s = s and lc = lc and ph = ph]) simp_all
  then show ?thesis by (simp only: Microtask)
next
  case (Effect i)
  show ?thesis
    using returned_waitForPromise [of lc "(run_cleanup (cleanup (instances s ! i)) s)
      \<lparr>cells := cells (run_cleanup (cleanup (instances s ! i)) s) @ [True]\<rparr>"]
    by (simp add: Effect run_effect_def Let_def case_prod_beta)
qed (simp_all add: returned_waitForPromise Let_def)

lemma returned_preloads:
  "length (filter (\<lambda>e. e = Preload) es) + length (returned s)
     \<le> length (returned (foldl (step lc ph) s es))"
proof (induction es arbitrary: s)
  case Nil
  show ?case by simp
next
  case (Cons e es)
  show ?case
  proof (cases "e = Preload")
    case True
    with Cons [of "step lc ph s e"] show ?thesis
      by (simp add: returned_waitForPromise)
  next
    case False
    with Cons [of "step lc ph s e"] returned_step [of s lc ph e] show ?thesis
      by simp
  qed
qed

subsection \<open>What was rendered, and settled promises\<close>

lemma render_inv_init: "render_inv ph (init lc)"
  by (simp add: render_inv_def init_def)

lemma render_inv_frame:
  assumes "render_inv ph s" "rendered t = rendered s" "component t = component s"
  shows "render_inv ph t"
  using assms by (simp add: render_inv_def)

lemma render_inv_step:
  assumes "promise_inv lc s" "render_inv ph s"
  shows "render_inv ph (step lc ph s e)"
proof (cases e)
  case Preload
  show ?thesis
    unfolding Preload step.simps by (rule render_inv_frame [OF assms(2)]) simp_all
next
  case (Settle p out)
  show ?thesis
    unfolding Settle step.simps by (rule render_inv_frame [OF assms(2)]) simp_all
next
  case Microtask
  have r: "rendered (step lc ph s Microtask) = rendered s"
    by (cases rule: step_Microtask_cases [where s = s and lc = lc and ph = ph]) simp_all
  have "component (step lc ph s Microtask) = component s \<or> component s = None"
    using component_stable_step [OF assms(1), of _ ph Microtask] by (cases "component s") simp_all
  with assms(2) r show ?thesis
    unfolding Microtask by (auto simp: render_inv_def)
next
  case (Render i props ref)
  with assms(2) show ?thesis
    by (auto simp: render_inv_def)
next
  case (Effect i)
  show ?thesis
    unfolding Effect step.simps
    by (rule render_inv_frame [OF assms(2)]) (simp_all add: run_effect_fields)
next
  case (Unmount i)
  show ?thesis
    unfolding Unmount step.simps
    by (rule render_inv_frame [OF assms(2)]) (simp_all add: Let_def)
qed

lemma foldl_render_inv:
  "promise_inv lc s \<Longrightarrow> render_inv ph s \<Longrightarrow> render_inv ph (foldl (step lc ph) s es)"
  by (induction es arbitrary: s) (simp_all add: promise_inv_step render_inv_step)

lemma run_render_inv: "render_inv ph (run lc ph es)"
  unfolding run_def by (rule foldl_render_inv [OF promise_inv_init render_inv_init])

text \<open>A settled promise stays as it is.\<close>

lemma then_cb_settled:
  assumes "promises s \<noteq> []" "status (promises s ! 0) = st" "st \<noteq> Pending"
  shows "promises (then_cb p cb s) \<noteq> [] \<and> status (promises (then_cb p cb s) ! 0) = st"
  using assms by (cases "p = 0") (auto simp: then_cb_def split: status.splits)

lemma ensure_promise_settled:
  assumes "promises s \<noteq> []" "status (promises s ! 0) = st"
  shows "promises (snd (ensure_promise lc s)) \<noteq> []
    \<and> status (promises (snd (ensure_promise lc s)) ! 0) = st"
  using assms
  by (auto simp: ensure_promise_def call_factory_def nth_append split: option.splits load_request.splits)

lemma waitForPromise_settled:
  assumes "promises s \<noteq> []" "status (promises s ! 0) = st" "st \<noteq> Pending"
  shows "promises (snd (waitForPromise lc s)) \<noteq> []
    \<and> status (promises (snd (waitForPromise lc s)) ! 0) = st"
proof -
  obtain p s1 where e: "ensure_promise lc s = (p, s1)"
    by (cases "ensure_promise lc s")
  have 1: "promises s1 \<noteq> []" "status (promises s1 ! 0) = st"
    using ensure_promise_settled [OF assms(1,2), of lc] by (simp_all add: e)
  with then_cb_settled [OF 1 assms(3), of p Store_component] show ?thesis
    by (simp add: waitForPromise_def e split: option.splits)
qed

lemma settle_settled:
  assumes "promises s \<noteq> []" "status (promises s ! 0) = st" "st \<noteq> Pending"
  shows "promises (settle p out s) \<noteq> [] \<and> status (promises (settle p out s) ! 0) = st"
  using assms by (cases "p = 0") (auto simp: settle_def split: status.splits outcome.splits)

lemma run_effect_settled:
  assumes "promises s \<noteq> []" "status (promises s ! 0) = st" "st \<noteq> Pending"
  shows "promises (run_effect lc i s) \<noteq> [] \<and> status (promises (run_effect lc i s) ! 0) = st"
proof -
  define s2 where "s2 = (run_cleanup (cleanup (instances s ! i)) s)
      \<lparr>cells := cells (run_cleanup (cleanup (instances s ! i)) s) @ [True]\<rparr>"
  have 2: "promises s2 \<noteq> []" "status (promises s2 ! 0) = st"
    using assms by (simp_all add: s2_def)
  note w = waitForPromise_settled [OF 2 assms(3), of lc]
  from w then_cb_settled [of "snd (waitForPromise lc s2)" st "fst (waitForPromise lc s2)"
      "Set_loaded i (length (cells s))"] assms(3) 2
  show ?thesis
    by (simp add: run_effect_def Let_def case_prod_beta s2_def [symmetric])
qed

lemma settled_step:
  assumes "promises s \<noteq> []" "status (promises s ! 0) = st" "st \<noteq> Pending"
  shows "promises (step lc ph s e) \<noteq> [] \<and> status (promises (step lc ph s e) ! 0) = st"
proof (cases e)
  case Preload
  with waitForPromise_settled [OF assms] show ?thesis by simp
next
  case (Settle p out)
  with settle_settled [OF assms] show ?thesis by simp
next
  case Microtask
  have "promises (step lc ph s Microtask) = promises s"
    by (cases rule: step_Microtask_cases [where s = s and lc = lc and ph = ph]) simp_all
  with assms show ?thesis unfolding Microtask by simp
next
  case (Effect i)
  with run_effect_settled [OF assms] assms show ?thesis by simp
qed (use assms in \<open>simp_all add: Let_def\<close>)

lemma settled_foldl:
  assumes "promises s \<noteq> []" "status (promises s ! 0) = st" "st \<noteq> Pending"
  shows "promises (foldl (step lc ph) s es) \<noteq> []
    \<and> status (promises (foldl (step lc ph) s es) ! 0) = st"
  using assms by (induction es arbitrary: s) (simp_all add: settled_step)

lemma preload_sets_promise:
  assumes "Preload \<in> set es"
  shows "promise (run lc ph es) = Some 0"
proof -
  from assms obtain es1 es2 where es: "es = es1 @ Preload # es2"
    by (auto dest: split_list)
  have hi: "heap_inv lc (run lc ph es1)"
    using run_inv(1) [of lc ph es1] by (simp add: promise_inv_def)
  have "promise (run lc ph (es1 @ [Preload])) = Some 0"
    using waitForPromise_promise [OF hi] by (simp add: run_def)
  then show ?thesis
    using promise_stable [of "run lc ph (es1 @ [Preload])" 0 lc ph es2]
    by (simp add: es run_def)
qed

subsection \<open>Loaded instances, first renders and the owners of \<open>isMounted\<close> variables\<close>

lemma loaded_inv_init: "loaded_inv (init lc)"
  by (simp add: loaded_inv_def init_def)

lemma fulfilled_step:
  assumes "promises s \<noteq> [] \<and> (\<exists>v. status (promises s ! 0) = Fulfilled v)"
  shows "promises (step lc ph s e) \<noteq> [] \<and> (\<exists>v. status (promises (step lc ph s e) ! 0) = Fulfilled v)"
proof -
  from assms obtain v where "promises s \<noteq> []" "status (promises s ! 0) = Fulfilled v"
    by auto
  from settled_step [OF this, of lc ph e] show ?thesis by simp
qed

lemma loaded_inv_step:
  assumes "promise_inv lc s" "loaded_inv s"
  shows "loaded_inv (step lc ph s e)"
  unfolding loaded_inv_def
proof (intro ballI impI)
  fix inst
  assume mem: "inst \<in> set (instances (step lc ph s e))" and l: "loaded inst \<or> seen_loaded inst"
  have v: "value_inv s"
    using assms(1) by (simp add: promise_inv_def)
  have old: "promises s \<noteq> [] \<and> (\<exists>v. status (promises s ! 0) = Fulfilled v)"
    if "inst' \<in> set (instances s)" "loaded inst' \<or> seen_loaded inst'" for inst'
    using assms(2) that by (auto simp: loaded_inv_def)
  have old_nth: "promises s \<noteq> [] \<and> (\<exists>v. status (promises s ! 0) = Fulfilled v)"
    if "j < length (instances s)" "loaded (instances s ! j) \<or> seen_loaded (instances s ! j)" for j
    using old [OF nth_mem [OF that(1)] that(2)] .
  have "promises s \<noteq> [] \<and> (\<exists>v. status (promises s ! 0) = Fulfilled v)"
  proof (cases e)
    case Preload
    with mem l old show ?thesis by auto
  next
    case (Settle p out)
    with mem l old show ?thesis by auto
  next
    case Microtask
    show ?thesis
    proof (cases rule: step_Microtask_cases [where s = s and lc = lc and ph = ph])
      case idle
      with mem l old Microtask show ?thesis by auto
    next
      case (store w js)
      with mem l old Microtask show ?thesis by auto
    next
      case (dead i c w js)
      with mem l old Microtask show ?thesis by auto
    next
      case (notify i c w js)
      with v show ?thesis by (auto simp: value_inv_def)
    qed
  next
    case (Render i props ref)
    show ?thesis
    proof (cases "component s")
      case None
      with mem l Render old old_nth [of i] show ?thesis
        by (auto split: if_splits dest!: set_update_subset_insert [THEN subsetD])
    next
      case (Some c)
      with v show ?thesis by (auto simp: value_inv_def)
    qed
  next
    case (Effect i)
    with mem l old old_nth [of i] show ?thesis
      by (auto simp: run_effect_fields split: if_splits
          dest!: set_update_subset_insert [THEN subsetD])
  next
    case (Unmount i)
    with mem l old old_nth [of i] show ?thesis
      by (auto simp: Let_def split: if_splits
          dest!: set_update_subset_insert [THEN subsetD])
  qed
  then show "promises (step lc ph s e) \<noteq> [] \<and> (\<exists>v. status (promises (step lc ph s e) ! 0) = Fulfilled v)"
    by (rule fulfilled_step)
qed

lemma foldl_loaded_inv:
  "promise_inv lc s \<Longrightarrow> loaded_inv s \<Longrightarrow> loaded_inv (foldl (step lc ph) s es)"
  by (induction es arbitrary: s) (simp_all add: promise_inv_step loaded_inv_step)

lemma run_loaded_inv: "loaded_inv (run lc ph es)"
  unfolding run_def by (rule foldl_loaded_inv [OF promise_inv_init loaded_inv_init])

lemma first_render_inv_init: "first_render_inv (init lc)"
  by (simp add: first_render_inv_def init_def)

lemma first_render_inv_step:
  assumes "first_render_inv s"
  shows "first_render_inv (step lc ph s e)"
proof (cases e)
  case Microtask
  have "first_render_inv (step lc ph s Microtask)"
    by (cases rule: step_Microtask_cases [where s = s and lc = lc and ph = ph])
      (use assms in \<open>auto simp: first_render_inv_def setLoaded_def\<close>)
  then show ?thesis by (simp only: Microtask)
qed (use assms in \<open>auto simp: first_render_inv_def run_effect_fields Let_def\<close>)

lemma foldl_first_render_inv:
  "first_render_inv s \<Longrightarrow> first_render_inv (foldl (step lc ph) s es)"
  by (induction es arbitrary: s) (simp_all add: first_render_inv_step)

lemma run_first_render_inv: "first_render_inv (run lc ph es)"
  unfolding run_def by (rule foldl_first_render_inv [OF first_render_inv_init])










lemma AsyncComponent_render_cases:
  "AsyncComponent_render r p x y =
     (case r of
        Some c \<Rightarrow> Some (Element c y x)
      | None \<Rightarrow> (case p of Some h \<Rightarrow> Some (Element h None x) | None \<Rightarrow> None))"
  by (simp add: AsyncComponent_render_def split: option.splits)

subsection \<open>Object spread\<close>

lemma map_of_spread:
  "map_of (spread base extra) k =
     (case map_of (rev extra) k of Some v \<Rightarrow> Some v | None \<Rightarrow> map_of base k)"
  unfolding spread_def
proof (induction extra arbitrary: base)
  case Nil
  show ?case by simp
next
  case (Cons kv extra)
  obtain k' v' where kv: "kv = (k', v')" by (cases kv)
  show ?case
    by (simp add: kv Cons update_conv' map_add_def split: option.splits)
qed

section \<open>The claims about the loader\<close>

text \<open>The definitions a concrete execution is evaluated with.\<close>

lemmas loader_defs = run_def init_def waitForPromise_def ensure_promise_def call_factory_def
  then_cb_def new_promise_def settle_def run_effect_def run_cleanup_def setLoaded_def
  AsyncComponent_render_def Let_def

text \<open>
  C1. A loader constructed with a factory invokes the factory at most once in every
  execution, whatever calls of \<open>preload\<close>, renders, effects, unmounts and promise jobs
  it interleaves, and exactly once as soon as \<open>preload\<close> has been called; every call
  of \<open>preload\<close> returns a promise, and all calls of \<open>waitForPromise\<close> return the same
  one, the promise held in \<open>promise\<close>. The factory is taken as its type declares it:
  it returns a promise, which may be fulfilled or rejected later.
\<close>

theorem preload_invokes_factory_once:
  "factory_calls (run Factory ph es) \<le> 1 \<and>
   (Preload \<in> set es \<longrightarrow> factory_calls (run Factory ph es) = 1) \<and>
   length (filter (\<lambda>e. e = Preload) es) \<le> length (returned (run Factory ph es)) \<and>
   (\<forall>p \<in> set (returned (run Factory ph es)). \<forall>q \<in> set (returned (run Factory ph es)). p = q) \<and>
   (\<forall>p \<in> set (returned (run Factory ph es)). promise (run Factory ph es) = Some p)"
proof -
  let ?s = "run Factory ph es"
  have h: "heap_inv Factory ?s"
    using run_inv(1) [of Factory ph es] by (simp add: promise_inv_def)
  have 1: "factory_calls ?s \<le> 1"
    using h by (simp add: heap_inv_def)
  have 2: "factory_calls ?s = 1" if "Preload \<in> set es"
  proof -
    from that obtain es1 es2 where es: "es = es1 @ Preload # es2"
      by (auto dest: split_list)
    have hi: "heap_inv Factory (run Factory ph es1)"
      using run_inv(1) [of Factory ph es1] by (simp add: promise_inv_def)
    have "promise (run Factory ph (es1 @ [Preload])) = Some 0"
      using waitForPromise_promise [OF hi] by (simp add: run_def)
    then have "promise ?s = Some 0"
      using promise_stable [of "run Factory ph (es1 @ [Preload])" 0 Factory ph es2]
      by (simp add: es run_def)
    with h show ?thesis by (simp add: heap_inv_def)
  qed
  have 3: "length (filter (\<lambda>e. e = Preload) es) \<le> length (returned ?s)"
    using returned_preloads [of es "init Factory" Factory ph] by (simp add: run_def)
  have 4: "\<forall>p \<in> set (returned ?s). promise ?s = Some p"
    using h by (simp add: heap_inv_def)
  have 5: "\<forall>p \<in> set (returned ?s). \<forall>q \<in> set (returned ?s). p = q"
  proof (intro ballI)
    fix p q assume "p \<in> set (returned ?s)" "q \<in> set (returned ?s)"
    with 4 have "promise ?s = Some p" "promise ?s = Some q" by blast+
    then show "p = q" by simp
  qed
  from 1 2 3 4 5 show ?thesis by blast
qed

theorem preload_invokes_factory_once_witness:
  "Preload \<in> set [Preload, Render 0 () None, Effect 0, Preload :: (nat, unit, unit) event] \<and>
   factory_calls (run Factory None
     [Preload, Render 0 () None, Effect 0, Preload :: (nat, unit, unit) event]) = 1 \<and>
   returned (run Factory None
     [Preload, Render 0 () None, Effect 0, Preload :: (nat, unit, unit) event]) = [0, 0, 0] \<and>
   promise (run Factory None
     [Preload, Render 0 () None, Effect 0, Preload :: (nat, unit, unit) event]) = Some 0"
  using preload_invokes_factory_once
    [of None "[Preload, Render 0 () None, Effect 0, Preload :: (nat, unit, unit) event]"]
  by (simp add: loader_defs)

text \<open>
  C2. The state of a loader only moves forward. Once \<open>promise\<close> holds a promise it
  holds that promise after every further event, and at most one promise exists at any
  time; once \<open>component\<close> holds a unit it holds that same unit after every further
  event: no render, effect, unmount, call of \<open>preload\<close>, settlement or promise job
  resets it or stores another unit.
\<close>

theorem loader_state_monotonic:
  "(promise (run lc ph es) = Some p \<longrightarrow> promise (run lc ph (es @ es')) = Some p) \<and>
   (component (run lc ph es) = Some c \<longrightarrow> component (run lc ph (es @ es')) = Some c) \<and>
   length (promises (run lc ph es)) \<le> 1"
proof -
  have "promise (run lc ph (es @ es')) = Some p" if "promise (run lc ph es) = Some p"
    using promise_stable [OF that] by (simp add: run_append)
  moreover have "component (run lc ph (es @ es')) = Some c" if "component (run lc ph es) = Some c"
    using component_stable [OF run_inv(1) that] by (simp add: run_append)
  moreover have "length (promises (run lc ph es)) \<le> 1"
    using run_inv(1) [of lc ph es] by (simp add: promise_inv_def heap_inv_def)
  ultimately show ?thesis by blast
qed

theorem loader_state_monotonic_witness:
  "promise (run Factory None [Preload, Settle 0 (Resolve (With_default (7::nat))), Microtask
      :: (nat, unit, unit) event]) = Some 0 \<and>
   component (run Factory None [Preload, Settle 0 (Resolve (With_default (7::nat))), Microtask
      :: (nat, unit, unit) event]) = Some 7 \<and>
   promise (run Factory None ([Preload, Settle 0 (Resolve (With_default (7::nat))), Microtask] @
      [Preload, Render 0 () None, Effect 0, Microtask, Settle 0 Reject,
       Settle 0 (Resolve (Bare 9)) :: (nat, unit, unit) event])) = Some 0 \<and>
   component (run Factory None ([Preload, Settle 0 (Resolve (With_default (7::nat))), Microtask] @
      [Preload, Render 0 () None, Effect 0, Microtask, Settle 0 Reject,
       Settle 0 (Resolve (Bare 9)) :: (nat, unit, unit) event])) = Some 7"
  using loader_state_monotonic [of Factory None
      "[Preload, Settle 0 (Resolve (With_default (7::nat))), Microtask :: (nat, unit, unit) event]"
      0 "[Preload, Render 0 () None, Effect 0, Microtask, Settle 0 Reject,
       Settle 0 (Resolve (Bare 9)) :: (nat, unit, unit) event]" 7]
  by (simp add: loader_defs)

text \<open>
  C3. Whether the promise is fulfilled with the record \<open>{ default: X }\<close> or with the unit
  \<open>X\<close> itself, once \<open>waitForPromise\<close> has been called and the queued promise jobs have
  run, the loader has stored \<open>X\<close> in \<open>component\<close>, and a render returns the element of \<open>X\<close>
  with the forwarded ref and the props: both ways give the same rendered unit.
\<close>

theorem default_export_unwrapped:
  assumes "m = With_default X \<or> m = Bare X"
    and "promise (run lc ph es) \<noteq> None"
    and "promises (run lc ph es) \<noteq> []"
    and "status (promises (run lc ph es) ! 0) = Fulfilled m"
    and "microtasks (run lc ph es) = []"
  shows "component (run lc ph es) = Some X \<and>
    AsyncComponent_render (component (run lc ph es)) ph props ref = Some (Element X ref props)"
proof -
  let ?s = "run lc ph es"
  have inv: "value_inv ?s" "store_inv ?s"
    using run_inv(1) [of lc ph es] by (simp_all add: promise_inv_def)
  have "component ?s \<noteq> None"
    using inv(2) assms(2,4,5) by (auto simp: store_inv_def)
  then obtain c where c: "component ?s = Some c" by auto
  with inv(1) assms(4) have "c = unwrap_default m"
    by (auto simp: value_inv_def)
  with assms(1) have "c = X" by auto
  with c show ?thesis by (simp add: AsyncComponent_render_def)
qed

theorem default_export_unwrapped_witness:
  "promise (run Factory (Some 1)
     [Preload, Settle 0 (Resolve (With_default (7::nat))), Microtask :: (nat, unit, unit) event])
     = Some 0 \<and>
   status (promises (run Factory (Some 1)
     [Preload, Settle 0 (Resolve (With_default (7::nat))), Microtask :: (nat, unit, unit) event]) ! 0)
     = Fulfilled (With_default 7) \<and>
   microtasks (run Factory (Some 1)
     [Preload, Settle 0 (Resolve (With_default (7::nat))), Microtask :: (nat, unit, unit) event])
     = [] \<and>
   status (promises (run Factory (Some 1)
     [Preload, Settle 0 (Resolve (Bare (7::nat))), Microtask :: (nat, unit, unit) event]) ! 0)
     = Fulfilled (Bare 7) \<and>
   component (run Factory (Some 1)
     [Preload, Settle 0 (Resolve (With_default (7::nat))), Microtask :: (nat, unit, unit) event])
     = Some 7 \<and>
   component (run Factory (Some 1)
     [Preload, Settle 0 (Resolve (Bare (7::nat))), Microtask :: (nat, unit, unit) event])
     = Some 7 \<and>
   AsyncComponent_render (component (run Factory (Some 1)
     [Preload, Settle 0 (Resolve (With_default (7::nat))), Microtask :: (nat, unit, unit) event]))
     (Some 1) () (Some ()) = Some (Element 7 (Some ()) ()) \<and>
   AsyncComponent_render (component (run Factory (Some 1)
     [Preload, Settle 0 (Resolve (Bare (7::nat))), Microtask :: (nat, unit, unit) event]))
     (Some 1) () (Some ()) = Some (Element 7 (Some ()) ())"
  using default_export_unwrapped [of "With_default 7" 7 Factory "Some 1"
      "[Preload, Settle 0 (Resolve (With_default (7::nat))), Microtask :: (nat, unit, unit) event]"
      "()" "Some ()"]
    default_export_unwrapped [of "Bare 7" 7 Factory "Some 1"
      "[Preload, Settle 0 (Resolve (Bare (7::nat))), Microtask :: (nat, unit, unit) event]"
      "()" "Some ()"]
  by (simp add: loader_defs)

text \<open>
  C4. If the promise of the loader is rejected, then after every further sequence of
  events \<open>component\<close> is still unset, no callback has been queued (the loader has
  registered nothing that reacts to a rejection), the factory has not been invoked
  again, no instance is loaded, and every render of the execution has returned what
  the render function gives without a resolved unit: the placeholder with the props and
  no ref, or nothing when the placeholder is \<open>null\<close>.
\<close>

theorem rejection_is_not_recovered:
  assumes "promises (run lc ph es) \<noteq> []"
    and "status (promises (run lc ph es) ! 0) = Rejected"
  shows "component (run lc ph (es @ es')) = None \<and>
    microtasks (run lc ph (es @ es')) = [] \<and>
    factory_calls (run lc ph (es @ es')) = factory_calls (run lc ph es) \<and>
    (\<forall>inst \<in> set (instances (run lc ph (es @ es'))). \<not> loaded inst) \<and>
    (\<forall>(i, props, ref, out) \<in> set (rendered (run lc ph (es @ es'))).
       out = AsyncComponent_render None ph props ref)"
proof -
  let ?s = "run lc ph es" and ?t = "run lc ph (es @ es')"
  have rej: "promises ?t \<noteq> []" "status (promises ?t ! 0) = Rejected"
    using settled_foldl [OF assms, of lc ph es'] by (simp_all add: run_append)
  have inv: "heap_inv lc ?t" "value_inv ?t" "heap_inv lc ?s"
    using run_inv(1) [of lc ph "es @ es'"] run_inv(1) [of lc ph es]
    by (simp_all add: promise_inv_def)
  have c: "component ?t = None"
    using inv(2) rej by (cases "component ?t") (auto simp: value_inv_def)
  have m: "microtasks ?t = []"
    using inv(2) rej by (cases "microtasks ?t") (auto simp: value_inv_def)
  have f: "factory_calls ?t = factory_calls ?s"
    using inv(1,3) rej(1) assms(1) by (cases lc) (auto simp: heap_inv_def)
  have l: "\<forall>inst \<in> set (instances ?t). \<not> loaded inst"
    using run_loaded_inv [of lc ph "es @ es'"] rej by (auto simp: loaded_inv_def)
  have r: "\<forall>(i, props, ref, out) \<in> set (rendered ?t). out = AsyncComponent_render None ph props ref"
    using run_render_inv [of ph lc "es @ es'"] c by (auto simp: render_inv_def)
  from c m f l r show ?thesis by blast
qed

theorem rejection_is_not_recovered_witness:
  "status (promises (run Factory (Some 1)
      [Preload, Render 0 () (Some ()), Effect 0, Settle 0 Reject :: (nat, unit, unit) event]) ! 0)
     = Rejected \<and>
   component (run Factory (Some 1)
     ([Preload, Render 0 () (Some ()), Effect 0, Settle 0 Reject] @
      [Microtask, Render 0 () (Some ()), Effect 0, Preload, Settle 0 (Resolve (Bare 7)),
       Microtask, Render 0 () (Some ()) :: (nat, unit, unit) event])) = None \<and>
   factory_calls (run Factory (Some 1)
     ([Preload, Render 0 () (Some ()), Effect 0, Settle 0 Reject] @
      [Microtask, Render 0 () (Some ()), Effect 0, Preload, Settle 0 (Resolve (Bare 7)),
       Microtask, Render 0 () (Some ()) :: (nat, unit, unit) event])) = 1 \<and>
   map (\<lambda>(i, props, ref, out). out) (rendered (run Factory (Some 1)
     ([Preload, Render 0 () (Some ()), Effect 0, Settle 0 Reject] @
      [Microtask, Render 0 () (Some ()), Effect 0, Preload, Settle 0 (Resolve (Bare 7)),
       Microtask, Render 0 () (Some ()) :: (nat, unit, unit) event]))) =
     [Some (Element 1 None ()), Some (Element 1 None ()), Some (Element 1 None ())]"
  using rejection_is_not_recovered [of Factory "Some 1"
      "[Preload, Render 0 () (Some ()), Effect 0, Settle 0 Reject :: (nat, unit, unit) event]"
      "[Microtask, Render 0 () (Some ()), Effect 0, Preload, Settle 0 (Resolve (Bare 7)),
        Microtask, Render 0 () (Some ()) :: (nat, unit, unit) event]"]
  by (simp add: loader_defs)



text \<open>
  When \<open>waitForPromise\<close> has been called, the promise is fulfilled and no promise job is
  left to run, the storing callback has run: \<open>component\<close> is set.
\<close>

lemma drained_queue_stores_component:
  assumes "promise (run lc ph es) \<noteq> None"
    and "promises (run lc ph es) \<noteq> []"
    and "status (promises (run lc ph es) ! 0) = Fulfilled m"
    and "microtasks (run lc ph es) = []"
  shows "component (run lc ph es) = Some (unwrap_default m)"
proof -
  let ?s = "run lc ph es"
  have inv: "value_inv ?s" "store_inv ?s"
    using run_inv(1) [of lc ph es] by (simp_all add: promise_inv_def)
  have "component ?s \<noteq> None"
    using inv(2) assms(1,3,4) by (auto simp: store_inv_def)
  then obtain c where c: "component ?s = Some c" by auto
  with inv(1) assms(3) have "c = unwrap_default m"
    by (auto simp: value_inv_def)
  with c show ?thesis by simp
qed

text \<open>
  C6, as stated, fails: \<open>preload\<close> is called, the promise is fulfilled with
  \<open>{ default: 7 }\<close> and no instance has been mounted, but the callback that stores the
  unit is still queued; the first mount then starts with \<open>loaded = false\<close> and renders
  the placeholder \<open>1\<close> without the ref.
\<close>

theorem preloaded_first_mount_counterexample:
  "Preload \<in> set [Preload, Settle 0 (Resolve (With_default 7)) :: (nat, unit, unit) event] \<and>
   instances (run Factory (Some 1)
     [Preload, Settle 0 (Resolve (With_default 7)) :: (nat, unit, unit) event]) = [] \<and>
   status (promises (run Factory (Some 1)
     [Preload, Settle 0 (Resolve (With_default 7)) :: (nat, unit, unit) event]) ! 0)
     = Fulfilled (With_default 7) \<and>
   instances (run Factory (Some 1)
     [Preload, Settle 0 (Resolve (With_default 7)), Render 0 () (Some ())
       :: (nat, unit, unit) event]) =
     [\<lparr>mounted = True, loaded = False, seen_loaded = False, effect_pending = True,
        cleanup = None\<rparr>] \<and>
   rendered (run Factory (Some 1)
     [Preload, Settle 0 (Resolve (With_default 7)), Render 0 () (Some ())
       :: (nat, unit, unit) event]) =
     [(0, (), Some (), Some (Element 1 None ()))]"
  by (simp add: loader_defs)

text \<open>
  C6, amended. If \<open>preload\<close> has been called, the promise is fulfilled and its
  completion callback has run, so that \<open>component\<close> is set, while no instance has been
  mounted yet, then the first mount starts with \<open>loaded = true\<close> and its render, the
  only render so far, returns the resolved unit with the forwarded ref and the props:
  the placeholder has been rendered zero times.
\<close>

theorem preloaded_first_mount:
  assumes "Preload \<in> set es"
    and "instances (run lc ph es) = []"
    and "promises (run lc ph es) \<noteq> []"
    and "status (promises (run lc ph es) ! 0) = Fulfilled m"
    and "component (run lc ph es) \<noteq> None"
  shows "instances (run lc ph (es @ [Render 0 props ref])) =
      [\<lparr>mounted = True, loaded = True, seen_loaded = True, effect_pending = True,
         cleanup = None\<rparr>] \<and>
    rendered (run lc ph (es @ [Render 0 props ref])) =
      [(0, props, ref, Some (Element (unwrap_default m) ref props))]"
proof -
  let ?s = "run lc ph es"
  have inv: "value_inv ?s"
    using run_inv(1) [of lc ph es] by (simp add: promise_inv_def)
  from assms(5) obtain c where c: "component ?s = Some c" by auto
  with inv assms(4) have "c = unwrap_default m"
    by (auto simp: value_inv_def)
  moreover have "rendered ?s = []"
    using run_first_render_inv [of lc ph es] assms(2) by (simp add: first_render_inv_def)
  ultimately show ?thesis
    using c assms(2) by (simp add: run_append AsyncComponent_render_def)
qed

theorem preloaded_first_mount_witness:
  "Preload \<in> set [Preload, Preload, Settle 0 (Resolve (With_default 7)), Microtask
      :: (nat, unit, unit) event] \<and>
   instances (run Factory (Some 1)
     [Preload, Preload, Settle 0 (Resolve (With_default 7)), Microtask
       :: (nat, unit, unit) event]) = [] \<and>
   status (promises (run Factory (Some 1)
     [Preload, Preload, Settle 0 (Resolve (With_default 7)), Microtask
       :: (nat, unit, unit) event]) ! 0) = Fulfilled (With_default 7) \<and>
   component (run Factory (Some 1)
     [Preload, Preload, Settle 0 (Resolve (With_default 7)), Microtask
       :: (nat, unit, unit) event]) = Some 7 \<and>
   microtasks (run Factory (Some 1)
     [Preload, Preload, Settle 0 (Resolve (With_default 7)), Microtask
       :: (nat, unit, unit) event]) = [(Store_component, With_default 7)] \<and>
   instances (run Factory (Some 1)
     ([Preload, Preload, Settle 0 (Resolve (With_default 7)), Microtask] @
      [Render 0 () (Some ()) :: (nat, unit, unit) event])) =
     [\<lparr>mounted = True, loaded = True, seen_loaded = True, effect_pending = True,
        cleanup = None\<rparr>] \<and>
   rendered (run Factory (Some 1)
     ([Preload, Preload, Settle 0 (Resolve (With_default 7)), Microtask] @
      [Render 0 () (Some ()) :: (nat, unit, unit) event])) =
     [(0, (), Some (), Some (Element 7 (Some ()) ()))]"
  using preloaded_first_mount [of
      "[Preload, Preload, Settle 0 (Resolve (With_default 7)), Microtask
        :: (nat, unit, unit) event]"
      Factory "Some 1" "With_default 7" "()" "Some ()"]
  by (simp add: loader_defs)

text \<open>
  C8. A render returns the resolved unit with the caller's props and the forwarded ref
  when a unit is stored; otherwise the placeholder with the caller's props and the ref
  \<open>null\<close>, or nothing when the placeholder is \<open>null\<close>. So does every render of every
  execution: what it returned is the placeholder with that render's props and no ref
  (or nothing), or the stored unit with that render's props and ref.
\<close>

theorem props_and_ref_forwarding:
  "AsyncComponent_render resolved placeholder props ref =
     (case resolved of
        Some c \<Rightarrow> Some (Element c ref props)
      | None \<Rightarrow> (case placeholder of Some h \<Rightarrow> Some (Element h None props) | None \<Rightarrow> None)) \<and>
   (\<forall>(i, props', ref', out) \<in> set (rendered (run lc ph es)).
      out = (case ph of Some h \<Rightarrow> Some (Element h None props') | None \<Rightarrow> None) \<or>
      (\<exists>c. component (run lc ph es) = Some c \<and> out = Some (Element c ref' props')))"
proof -
  have "\<forall>(i, props', ref', out) \<in> set (rendered (run lc ph es)).
      out = (case ph of Some h \<Rightarrow> Some (Element h None props') | None \<Rightarrow> None) \<or>
      (\<exists>c. component (run lc ph es) = Some c \<and> out = Some (Element c ref' props'))"
    using run_render_inv [of ph lc es] unfolding render_inv_def AsyncComponent_render_cases
    by (auto split: option.splits)
  with AsyncComponent_render_cases [of resolved placeholder props ref] show ?thesis by blast
qed

theorem props_and_ref_forwarding_witness:
  "rendered (run Given_promise (Some 1)
     [Render 0 ''a'' (Some ()), Effect 0, Settle 0 (Resolve (Bare 7)), Microtask, Microtask,
      Render 0 ''b'' (Some ()) :: (nat, string, unit) event]) =
     [(0, ''a'', Some (), Some (Element 1 None ''a'')),
      (0, ''b'', Some (), Some (Element 7 (Some ()) ''b''))] \<and>
   component (run Given_promise (Some 1)
     [Render 0 ''a'' (Some ()), Effect 0, Settle 0 (Resolve (Bare 7)), Microtask, Microtask,
      Render 0 ''b'' (Some ()) :: (nat, string, unit) event]) = Some 7"
  using props_and_ref_forwarding [of None "Some (1::nat)" "''a''" "Some ()" Given_promise "Some 1"
     "[Render 0 ''a'' (Some ()), Effect 0, Settle 0 (Resolve (Bare 7)), Microtask, Microtask,
      Render 0 ''b'' (Some ()) :: (nat, string, unit) event]"]
  by (simp add: loader_defs)

section \<open>The claim about the default placeholder\<close>

text \<open>
  C7, as stated, fails: with \<open>height = 200\<close>, \<open>width = 100\<close> and
  \<open>placeholderStyle = { height: 50 }\<close> the box is 100 wide and 50 high, because the
  entries of \<open>placeholderStyle\<close> are spread after \<open>width\<close> and \<open>height\<close>.
\<close>

theorem default_placeholder_style_counterexample:
  "DefaultPlaceholder
     \<lparr>width = Some 100, height = Some 200, showLoadingForImport = None,
      placeholderStyle = Some [(''height'', Num 50)]\<rparr> =
   Some (Div ''async-asm-placeholder''
     [(''width'', Some (Num 100)), (''height'', Some (Num 50))] [])"
  by (simp add: DefaultPlaceholder_def spread_def)

text \<open>
  C7, amended. Without a height, or with height \<open>0\<close>, the default placeholder renders
  nothing. With a non-zero height it renders one box, which contains the loading
  indicator exactly when \<open>showLoadingForImport\<close> is \<open>true\<close>; the box has exactly the given
  width and height whenever \<open>placeholderStyle\<close> is absent or sets neither \<open>width\<close> nor
  \<open>height\<close>.
\<close>

theorem default_placeholder_box:
  "(height props = None \<or> height props = Some 0 \<longrightarrow> DefaultPlaceholder props = None) \<and>
   (height props = Some h \<and> h \<noteq> 0 \<longrightarrow>
      (\<exists>st. DefaultPlaceholder props =
          Some (Div ''async-asm-placeholder'' st
            (if showLoadingForImport props = Some True then [Loading ''floating''] else [])) \<and>
        ((\<forall>kvs. placeholderStyle props = Some kvs \<longrightarrow>
            ''width'' \<notin> fst ` set kvs \<and> ''height'' \<notin> fst ` set kvs) \<longrightarrow>
         map_of st ''width'' = Some (map_option Num (width props)) \<and>
         map_of st ''height'' = Some (Some (Num h)))))"
proof -
  have none: "map_of (rev (map (\<lambda>(k, v). (k, Some v)) kvs)) k = None" if "k \<notin> fst ` set kvs"
    for k and kvs :: "(string \<times> css_value) list"
    using that by (force simp: map_of_eq_None_iff)
  show ?thesis
    by (cases "showLoadingForImport props"; cases "placeholderStyle props")
      (auto simp: DefaultPlaceholder_def map_of_spread none)
qed

theorem default_placeholder_box_witness:
  "DefaultPlaceholder
     \<lparr>width = Some 100, height = Some 200, showLoadingForImport = Some True,
      placeholderStyle = Some [(''color'', Str ''red'')]\<rparr> =
   Some (Div ''async-asm-placeholder''
     [(''width'', Some (Num 100)), (''height'', Some (Num 200)), (''color'', Some (Str ''red''))]
     [Loading ''floating'']) \<and>
   DefaultPlaceholder
     \<lparr>width = Some 100, height = Some 0, showLoadingForImport = Some True,
      placeholderStyle = None\<rparr> = None"
  using default_placeholder_box [of "\<lparr>width = Some 100, height = Some 200,
      showLoadingForImport = Some True, placeholderStyle = Some [(''color'', Str ''red'')]\<rparr>" 200]
    default_placeholder_box [of "\<lparr>width = Some 100, height = Some 0,
      showLoadingForImport = Some True, placeholderStyle = None\<rparr>" 0]
  by (simp add: DefaultPlaceholder_def spread_def)

section \<open>The claims about the dashboard actions\<close>

text \<open>The definitions a thunk is evaluated with.\<close>

lemmas thunk_defs = saveChartConfiguration_def saveChartConfiguration_try_def
  updateDashboardTheme_def updateDashboardTheme_try_def
  saveFilterBarOrientation_def saveFilterBarOrientation_try_def
  saveCrossFiltersSetting_def saveCrossFiltersSetting_try_def
  toast_and_rethrow_def dispatch_onSave_def Let_def

text \<open>
  C9. \<open>saveChartConfiguration\<close> dispatches \<open>SAVE_CHART_CONFIG_BEGIN\<close> first, then sends
  the request, then dispatches either the updated metadata followed by
  \<open>SAVE_CHART_CONFIG_COMPLETE\<close> (the request resolved and the \<open>json_metadata\<close> of the
  response was parsed) or \<open>SAVE_CHART_CONFIG_FAIL\<close> followed by the danger toast (the
  \<open>try\<close> block threw); it dispatches exactly one of \<open>COMPLETE\<close> and \<open>FAIL\<close>.
\<close>

theorem saveChartConfiguration_lifecycle:
  fixes env :: "'e env"
  shows "fst (saveChartConfiguration cc gcc env) =
     Dispatch (SAVE_CHART_CONFIG_BEGIN cc gcc) #
     Put (dashboard_id env) (chart_config_payload cc gcc env) #
     (case updateDashboard env (dashboard_id env) (chart_config_payload cc gcc env) of
        Rejects e \<Rightarrow>
          [Dispatch (SAVE_CHART_CONFIG_FAIL cc gcc),
           Dispatch (ADD_DANGER_TOAST (translate env ''Failed to save cross-filter scoping''))]
      | Resolves r \<Rightarrow>
          (case (JSON_parse (json_metadata r) :: 'e thrown + json) of
             Inl err \<Rightarrow>
               [Dispatch (SAVE_CHART_CONFIG_FAIL cc gcc),
                Dispatch (ADD_DANGER_TOAST (translate env ''Failed to save cross-filter scoping''))]
           | Inr md \<Rightarrow>
               [Dispatch (DASHBOARD_INFO_UPDATED md),
                Dispatch (SAVE_CHART_CONFIG_COMPLETE cc gcc)])) \<and>
   length (filter is_outcome (fst (saveChartConfiguration cc gcc env))) = 1 \<and>
   snd (saveChartConfiguration cc gcc env) = Inr ()"
  by (simp add: thunk_defs split: http_outcome.splits sum.splits)

text \<open>
  C10. When the request is rejected with \<open>e\<close>, \<open>saveChartConfiguration\<close> dispatches the
  fail action and its toast and resolves, while \<open>updateDashboardTheme\<close>,
  \<open>saveFilterBarOrientation\<close> and \<open>saveCrossFiltersSetting\<close> each dispatch the toast of
  \<open>getErrorText\<close> and reject with \<open>e\<close>.
\<close>

theorem error_contracts_differ:
  fixes env :: "'e env"
  shows "saveChartConfiguration cc gcc (env\<lparr>updateDashboard := \<lambda>i body. Rejects e\<rparr>) =
     ([Dispatch (SAVE_CHART_CONFIG_BEGIN cc gcc),
       Put (dashboard_id env) (chart_config_payload cc gcc env),
       Dispatch (SAVE_CHART_CONFIG_FAIL cc gcc),
       Dispatch (ADD_DANGER_TOAST (translate env ''Failed to save cross-filter scoping''))],
      Inr ()) \<and>
   updateDashboardTheme themeId (env\<lparr>updateDashboard := \<lambda>i body. Rejects e\<rparr>) =
     ([Put (dashboard_id env) (Theme_id themeId),
       Dispatch (ADD_DANGER_TOAST (getErrorText env (Http_error e) ''dashboard''))],
      Inl (Http_error e)) \<and>
   (\<exists>body. saveFilterBarOrientation orientation (env\<lparr>updateDashboard := \<lambda>i body. Rejects e\<rparr>) =
     ([Put (dashboard_id env) body,
       Dispatch (ADD_DANGER_TOAST (getErrorText env (Http_error e) ''dashboard''))],
      Inl (Http_error e))) \<and>
   (\<exists>body. saveCrossFiltersSetting enabled (env\<lparr>updateDashboard := \<lambda>i body. Rejects e\<rparr>) =
     ([Put (dashboard_id env) body,
       Dispatch (ADD_DANGER_TOAST (getErrorText env (Http_error e) ''dashboard''))],
      Inl (Http_error e)))"
  by (simp add: thunk_defs chart_config_payload_def)

end
